theory Spec2Isabelle
  imports Complex_Main "HOL-Library.Multiset"
begin

section \<open>The position oracle\<close>

text \<open>
  The search core consumes a chess-rules library (python-chess) and never implements the
  rules itself.  A value of type \<open>'b\<close> is the whole state of one board object (placement,
  side to move, move stack); the library's operations are the fields of the record
  \<open>position_oracle\<close>, a parameter of every function below.  \<open>push\<close> and \<open>pop\<close> mutate the board
  object in the source; here they return the new state, and the functions that call them
  pass the board state along and return it.
\<close>

datatype color = White | Black

datatype piece_type = Pawn | Knight | Bishop | Rook | Queen | King

record piece =
  piece_type :: piece_type
  color :: color

record move =
  from_square :: nat
  to_square :: nat
  promotion :: "piece_type option"

datatype error =
    NoLegalMoves     \<comment> \<open>\<open>ValueError("No legal moves available in this position.")\<close>\<close>
  | MaxEmpty         \<comment> \<open>\<open>ValueError\<close> of \<open>max\<close> on an empty sequence\<close>
  | ChoiceEmpty      \<comment> \<open>\<open>IndexError\<close> of \<open>random.choice\<close> on an empty sequence\<close>
  | PopEmpty         \<comment> \<open>\<open>IndexError\<close> of \<open>list.pop\<close> on an empty list\<close>
  | MathDomain       \<comment> \<open>\<open>ValueError\<close> of \<open>math.log\<close> or \<open>math.sqrt\<close> outside the domain\<close>

record 'b position_oracle =
  legal_moves :: "'b \<Rightarrow> move list"
  push :: "'b \<Rightarrow> move \<Rightarrow> 'b"
  pop :: "'b \<Rightarrow> 'b"
  is_checkmate :: "'b \<Rightarrow> bool"
  is_stalemate :: "'b \<Rightarrow> bool"
  is_insufficient_material :: "'b \<Rightarrow> bool"
  can_claim_draw :: "'b \<Rightarrow> bool"
  is_game_over :: "'b \<Rightarrow> bool"
  is_check :: "'b \<Rightarrow> bool"
  is_capture :: "'b \<Rightarrow> move \<Rightarrow> bool"
  piece_at :: "'b \<Rightarrow> nat \<Rightarrow> piece option"
  turn :: "'b \<Rightarrow> color"
  result :: "'b \<Rightarrow> string"

text \<open>The two facts about the library that the search relies on: undoing the move just
  applied restores the board, and a game that is not over has a legal move.\<close>

definition pop_push :: "'b position_oracle \<Rightarrow> bool" where
  "pop_push orc \<longleftrightarrow> (\<forall>b m. pop orc (push orc b m) = b)"

definition moves_unless_over :: "'b position_oracle \<Rightarrow> bool" where
  "moves_unless_over orc \<longleftrightarrow> (\<forall>b. \<not> is_game_over orc b \<longrightarrow> legal_moves orc b \<noteq> [])"

section \<open>Piece values and piece-square tables (minimax_agent.py)\<close>

fun PIECE_VALUES :: "piece_type \<Rightarrow> int" where
  "PIECE_VALUES Pawn = 100"
| "PIECE_VALUES Knight = 320"
| "PIECE_VALUES Bishop = 330"
| "PIECE_VALUES Rook = 500"
| "PIECE_VALUES Queen = 900"
| "PIECE_VALUES King = 0"

definition PAWN_TABLE :: "int list" where
  "PAWN_TABLE = [
     0,  0,  0,  0,  0,  0,  0,  0,
    50, 50, 50, 50, 50, 50, 50, 50,
    10, 10, 20, 30, 30, 20, 10, 10,
     5,  5, 10, 25, 25, 10,  5,  5,
     0,  0,  0, 20, 20,  0,  0,  0,
     5, -5,-10,  0,  0,-10, -5,  5,
     5, 10, 10,-20,-20, 10, 10,  5,
     0,  0,  0,  0,  0,  0,  0,  0]"

definition KNIGHT_TABLE :: "int list" where
  "KNIGHT_TABLE = [
    -50,-40,-30,-30,-30,-30,-40,-50,
    -40,-20,  0,  0,  0,  0,-20,-40,
    -30,  0, 10, 15, 15, 10,  0,-30,
    -30,  5, 15, 20, 20, 15,  5,-30,
    -30,  0, 15, 20, 20, 15,  0,-30,
    -30,  5, 10, 15, 15, 10,  5,-30,
    -40,-20,  0,  5,  5,  0,-20,-40,
    -50,-40,-30,-30,-30,-30,-40,-50]"

definition BISHOP_TABLE :: "int list" where
  "BISHOP_TABLE = [
    -20,-10,-10,-10,-10,-10,-10,-20,
    -10,  0,  0,  0,  0,  0,  0,-10,
    -10,  0, 10, 10, 10, 10,  0,-10,
    -10,  5,  5, 10, 10,  5,  5,-10,
    -10,  0,  5, 10, 10,  5,  0,-10,
    -10, 10, 10, 10, 10, 10, 10,-10,
    -10,  5,  0,  0,  0,  0,  5,-10,
    -20,-10,-10,-10,-10,-10,-10,-20]"

definition ROOK_TABLE :: "int list" where
  "ROOK_TABLE = [
     0,  0,  0,  0,  0,  0,  0,  0,
     5, 10, 10, 10, 10, 10, 10,  5,
    -5,  0,  0,  0,  0,  0,  0, -5,
    -5,  0,  0,  0,  0,  0,  0, -5,
    -5,  0,  0,  0,  0,  0,  0, -5,
    -5,  0,  0,  0,  0,  0,  0, -5,
    -5,  0,  0,  0,  0,  0,  0, -5,
     0,  0,  0,  5,  5,  0,  0,  0]"

definition QUEEN_TABLE :: "int list" where
  "QUEEN_TABLE = [
    -20,-10,-10, -5, -5,-10,-10,-20,
    -10,  0,  0,  0,  0,  0,  0,-10,
    -10,  0,  5,  5,  5,  5,  0,-10,
     -5,  0,  5,  5,  5,  5,  0, -5,
      0,  0,  5,  5,  5,  5,  0, -5,
    -10,  5,  5,  5,  5,  5,  0,-10,
    -10,  0,  5,  0,  0,  0,  0,-10,
    -20,-10,-10, -5, -5,-10,-10,-20]"

definition KING_TABLE_MIDDLEGAME :: "int list" where
  "KING_TABLE_MIDDLEGAME = [
    -30,-40,-40,-50,-50,-40,-40,-30,
    -30,-40,-40,-50,-50,-40,-40,-30,
    -30,-40,-40,-50,-50,-40,-40,-30,
    -30,-40,-40,-50,-50,-40,-40,-30,
    -20,-30,-30,-40,-40,-30,-30,-20,
    -10,-20,-20,-20,-20,-20,-20,-10,
     20, 20,  0,  0,  0,  0, 20, 20,
     20, 30, 10,  0,  0, 10, 30, 20]"

fun PST :: "piece_type \<Rightarrow> int list" where
  "PST Pawn = PAWN_TABLE"
| "PST Knight = KNIGHT_TABLE"
| "PST Bishop = BISHOP_TABLE"
| "PST Rook = ROOK_TABLE"
| "PST Queen = QUEEN_TABLE"
| "PST King = KING_TABLE_MIDDLEGAME"

text \<open>\<open>chess.SQUARES\<close> is \<open>range(64)\<close>, a1 = 0 up to h8 = 63.\<close>

definition SQUARES :: "nat list" where
  "SQUARES = [0..<64]"

text \<open>The two nested loops that fill \<open>_MIRROR\<close>: rank \<open>r\<close>, file \<open>f\<close> give \<open>(7 - r) * 8 + f\<close>.\<close>

definition MIRROR :: "nat list" where
  "MIRROR = concat (map (\<lambda>r. map (\<lambda>f. (7 - r) * 8 + f) [0..<8]) [0..<8])"

text \<open>The start-up loop: \<open>white_tbl[sq] = _table[_MIRROR[sq]]\<close>, \<open>black_tbl[sq] = _table[sq]\<close>.\<close>

definition PST_WHITE :: "piece_type \<Rightarrow> int list" where
  "PST_WHITE pt = map (\<lambda>sq. PST pt ! (MIRROR ! sq)) [0..<64]"

definition PST_BLACK :: "piece_type \<Rightarrow> int list" where
  "PST_BLACK pt = map (\<lambda>sq. PST pt ! sq) [0..<64]"

section \<open>Evaluation\<close>

definition CHECKMATE_SCORE :: int where
  "CHECKMATE_SCORE = 100000"

text \<open>One pass of the loop over the squares in \<open>evaluate\<close>, on the running \<open>score\<close>.\<close>

definition evaluate_square :: "'b position_oracle \<Rightarrow> 'b \<Rightarrow> nat \<Rightarrow> int \<Rightarrow> int" where
  "evaluate_square orc board sq score =
     (case piece_at orc board sq of
        None \<Rightarrow> score
      | Some pc \<Rightarrow>
          (let v = PIECE_VALUES (piece_type pc) in
           if color pc = White
           then score + (v + PST_WHITE (piece_type pc) ! sq)
           else score - (v + PST_BLACK (piece_type pc) ! sq)))"

definition evaluate :: "'b position_oracle \<Rightarrow> 'b \<Rightarrow> int" where
  "evaluate orc board =
     (if is_checkmate orc board then - CHECKMATE_SCORE
      else if is_stalemate orc board \<or> is_insufficient_material orc board \<or> can_claim_draw orc board
      then 0
      else (let score = fold (evaluate_square orc board) SQUARES 0 in
            if turn orc board = Black then - score else score))"

section \<open>Move ordering\<close>

text \<open>\<open>_move_order_key\<close> applies and undoes the move on the board it is given when the move
  is not a capture, so it returns the board state next to the key.\<close>

definition move_order_key :: "'b position_oracle \<Rightarrow> 'b \<Rightarrow> move \<Rightarrow> int \<times> 'b" where
  "move_order_key orc board mv =
     (let (score, board') =
        (if is_capture orc board mv then
           (let victim_val = (case piece_at orc board (to_square mv) of
                                Some victim \<Rightarrow> PIECE_VALUES (piece_type victim)
                              | None \<Rightarrow> PIECE_VALUES Pawn);
                aggressor_val = (case piece_at orc board (from_square mv) of
                                   Some aggressor \<Rightarrow> PIECE_VALUES (piece_type aggressor)
                                 | None \<Rightarrow> 0)
            in (- (10 * victim_val - aggressor_val) - 20000, board))
         else
           (let board1 = push orc board mv;
                is_chk = is_check orc board1;
                board2 = pop orc board1
            in (if is_chk then - 10000 else 0, board2)))
      in (case promotion mv of
            Some pt \<Rightarrow> (score - PIECE_VALUES pt, board')
          | None \<Rightarrow> (score, board')))"

text \<open>\<open>list.sort(key=...)\<close> computes the key of every element once, in list order, and
  then sorts stably by key.\<close>

fun sort_keys :: "'b position_oracle \<Rightarrow> 'b \<Rightarrow> move list \<Rightarrow> (int \<times> move) list \<times> 'b" where
  "sort_keys orc board [] = ([], board)"
| "sort_keys orc board (mv # mvs) =
     (let (k, board1) = move_order_key orc board mv;
          (rest, board2) = sort_keys orc board1 mvs
      in ((k, mv) # rest, board2))"

definition ordered_moves :: "'b position_oracle \<Rightarrow> 'b \<Rightarrow> move list \<times> 'b" where
  "ordered_moves orc board =
     (let moves = legal_moves orc board;
          (keyed, board') = sort_keys orc board moves
      in (map snd (sort_key fst keyed), board'))"

section \<open>Negamax with alpha-beta pruning\<close>

text \<open>
  \<open>depth\<close> is a Python integer; the recursion stops at \<open>depth == 0\<close> or at a finished game,
  so a negative depth may recurse without bound.  The first argument bounds the nesting of
  \<open>_negamax\<close> calls: \<open>None\<close> is a search that did not return within that nesting.
  \<open>negamax_moves\<close> is the \<open>for\<close> loop of \<open>_negamax\<close> over the moves still to be tried.
\<close>

fun negamax :: "nat \<Rightarrow> 'b position_oracle \<Rightarrow> 'b \<Rightarrow> int \<Rightarrow> int \<Rightarrow> int \<Rightarrow> (int \<times> 'b) option"
  and negamax_moves ::
    "nat \<Rightarrow> 'b position_oracle \<Rightarrow> 'b \<Rightarrow> int \<Rightarrow> move list \<Rightarrow> int \<Rightarrow> int \<Rightarrow> int \<Rightarrow> (int \<times> 'b) option"
  where
  "negamax 0 orc board depth alpha beta = None"
| "negamax (Suc fuel) orc board depth alpha beta =
     (if depth = 0 \<or> is_game_over orc board then Some (evaluate orc board, board)
      else (case ordered_moves orc board of
              (moves, board1) \<Rightarrow>
                negamax_moves fuel orc board1 depth moves (- CHECKMATE_SCORE - 1) alpha beta))"
| "negamax_moves fuel orc board depth [] best alpha beta = Some (best, board)"
| "negamax_moves fuel orc board depth (mv # mvs) best alpha beta =
     (case negamax fuel orc (push orc board mv) (depth - 1) (- beta) (- alpha) of
        None \<Rightarrow> None
      | Some (r, board1) \<Rightarrow>
          (let score = - r;
               board2 = pop orc board1;
               best' = (if score > best then score else best);
               alpha' = (if best' > alpha then best' else alpha)
           in if alpha' \<ge> beta then Some (best', board2)
              else negamax_moves fuel orc board2 depth mvs best' alpha' beta))"

text \<open>The \<open>for\<close> loop of \<open>_search_root\<close>; it has no cutoff.\<close>

fun search_root_moves ::
    "nat \<Rightarrow> 'b position_oracle \<Rightarrow> 'b \<Rightarrow> int \<Rightarrow> move list \<Rightarrow> move \<Rightarrow> int \<Rightarrow> int \<Rightarrow> int
      \<Rightarrow> ((move \<times> int) \<times> 'b) option" where
  "search_root_moves fuel orc board depth [] best_move best_score alpha beta =
     Some ((best_move, best_score), board)"
| "search_root_moves fuel orc board depth (mv # mvs) best_move best_score alpha beta =
     (case negamax fuel orc (push orc board mv) (depth - 1) (- beta) (- alpha) of
        None \<Rightarrow> None
      | Some (r, board1) \<Rightarrow>
          (let score = - r;
               board2 = pop orc board1;
               best_score' = (if score > best_score then score else best_score);
               best_move' = (if score > best_score then mv else best_move);
               alpha' = (if score > alpha then score else alpha)
           in search_root_moves fuel orc board2 depth mvs best_move' best_score' alpha' beta))"

text \<open>\<open>_search_root\<close>, with the best score next to the best move (the source keeps it in
  \<open>best_score\<close> and returns the move only, see \<open>search_root\<close>).\<close>

definition search_root_scored ::
    "nat \<Rightarrow> 'b position_oracle \<Rightarrow> 'b \<Rightarrow> int \<Rightarrow> ((error + move \<times> int) \<times> 'b) option" where
  "search_root_scored fuel orc board depth =
     (case ordered_moves orc board of
        (moves, board1) \<Rightarrow>
          (case moves of
             [] \<Rightarrow> Some (Inl NoLegalMoves, board1)
           | m0 # _ \<Rightarrow>
               (case search_root_moves fuel orc board1 depth moves m0
                       (- CHECKMATE_SCORE - 1) (- CHECKMATE_SCORE - 1) (CHECKMATE_SCORE + 1) of
                  None \<Rightarrow> None
                | Some (ms, board2) \<Rightarrow> Some (Inr ms, board2))))"

definition search_root :: "nat \<Rightarrow> 'b position_oracle \<Rightarrow> 'b \<Rightarrow> int \<Rightarrow> ((error + move) \<times> 'b) option" where
  "search_root fuel orc board depth =
     (case search_root_scored fuel orc board depth of
        None \<Rightarrow> None
      | Some (Inl e, board1) \<Rightarrow> Some (Inl e, board1)
      | Some (Inr (mv, score), board1) \<Rightarrow> Some (Inr mv, board1))"

section \<open>Monte Carlo tree search (mcts_agent.py)\<close>

subsection \<open>The random source\<close>

text \<open>
  The source draws from Python's global generator.  Here the generator is the stream of its
  raw draws, passed along and returned: \<open>randbelow n\<close> takes the next draw modulo \<open>n\<close>, so
  every sequence of outcomes of the real generator is the behaviour of some stream.
  \<open>choice\<close> and \<open>shuffle\<close> follow \<open>random.choice\<close> (an \<open>IndexError\<close> on an empty sequence)
  and \<open>random.shuffle\<close> (for \<open>i\<close> from \<open>len - 1\<close> down to 1, swap positions \<open>i\<close> and
  \<open>randbelow(i + 1)\<close>).
\<close>

type_synonym rng = "nat \<Rightarrow> nat"

definition randbelow :: "nat \<Rightarrow> rng \<Rightarrow> nat \<times> rng" where
  "randbelow n g = (g 0 mod n, \<lambda>i. g (Suc i))"

definition choice :: "'a list \<Rightarrow> rng \<Rightarrow> (error + 'a) \<times> rng" where
  "choice xs g =
     (if xs = [] then (Inl ChoiceEmpty, g)
      else (let (j, g') = randbelow (length xs) g in (Inr (xs ! j), g')))"

fun shuffle_loop :: "nat \<Rightarrow> 'a list \<Rightarrow> rng \<Rightarrow> 'a list \<times> rng" where
  "shuffle_loop 0 xs g = (xs, g)"
| "shuffle_loop (Suc k) xs g =
     (let i = Suc k;
          (j, g') = randbelow (i + 1) g
      in shuffle_loop k (xs[i := xs ! j, j := xs ! i]) g')"

definition shuffle :: "'a list \<Rightarrow> rng \<Rightarrow> 'a list \<times> rng" where
  "shuffle xs g = shuffle_loop (length xs - 1) xs g"

subsection \<open>Material evaluation for the rollout cutoff\<close>

text \<open>Python floats are modelled as real numbers: rounding is not part of the model.\<close>

fun PIECE_VALUES_mcts :: "piece_type \<Rightarrow> int" where
  "PIECE_VALUES_mcts Pawn = 100"
| "PIECE_VALUES_mcts Knight = 320"
| "PIECE_VALUES_mcts Bishop = 330"
| "PIECE_VALUES_mcts Rook = 500"
| "PIECE_VALUES_mcts Queen = 900"
| "PIECE_VALUES_mcts King = 0"

definition material_square :: "'b position_oracle \<Rightarrow> 'b \<Rightarrow> nat \<Rightarrow> int \<Rightarrow> int" where
  "material_square orc board sq score =
     (case piece_at orc board sq of
        None \<Rightarrow> score
      | Some pc \<Rightarrow>
          (let val = PIECE_VALUES_mcts (piece_type pc) in
           if color pc = White then score + val else score - val))"

definition material_eval :: "'b position_oracle \<Rightarrow> 'b \<Rightarrow> real" where
  "material_eval orc board =
     (let score = fold (material_square orc board) SQUARES 0
      in tanh (real_of_int score / 1000))"

subsection \<open>The search tree\<close>

text \<open>
  The nodes of one search live in a list; a node is referred to by its index, the root is
  index 0, and \<open>parent\<close> and \<open>children\<close> hold indices.  Every node owns the board it was
  created with (the source copies the parent's board and applies the move to the copy).
\<close>

record 'b node =
  board :: 'b
  parent :: "nat option"
  move :: "move option"
  children :: "nat list"
  untried_moves :: "move list"
  visits :: int
  total_value :: real

type_synonym 'b tree = "'b node list"

text \<open>\<open>_MCTSNode.__init__\<close>: the untried moves are the legal moves, shuffled.\<close>

definition new_node ::
    "'b position_oracle \<Rightarrow> 'b \<Rightarrow> nat option \<Rightarrow> move option \<Rightarrow> rng \<Rightarrow> 'b node \<times> rng" where
  "new_node orc brd par mv g =
     (let (untried, g') = shuffle (legal_moves orc brd) g
      in (\<lparr>board = brd, parent = par, move = mv, children = [],
           untried_moves = untried, visits = 0, total_value = 0\<rparr>, g'))"

definition q :: "'b node \<Rightarrow> real" where
  "q nd = (if visits nd = 0 then 0 else total_value nd / real_of_int (visits nd))"

definition is_fully_expanded :: "'b node \<Rightarrow> bool" where
  "is_fully_expanded nd \<longleftrightarrow> length (untried_moves nd) = 0"

definition is_terminal :: "'b position_oracle \<Rightarrow> 'b node \<Rightarrow> bool" where
  "is_terminal orc nd \<longleftrightarrow> is_game_over orc (board nd)"

subsection \<open>Selection\<close>

text \<open>A UCB1 value is a float or \<open>float("inf")\<close>.\<close>

datatype ucb = Finite real | Infinity

fun ucb_gt :: "ucb \<Rightarrow> ucb \<Rightarrow> bool" where
  "ucb_gt (Finite x) (Finite y) \<longleftrightarrow> x > y"
| "ucb_gt Infinity (Finite y) \<longleftrightarrow> True"
| "ucb_gt _ Infinity \<longleftrightarrow> False"

definition UCB1_C :: real where
  "UCB1_C = 141 / 100"

text \<open>\<open>math.log\<close> raises on an argument that is not positive, \<open>math.sqrt\<close> on a negative one.\<close>

definition ucb1 :: "'b node \<Rightarrow> int \<Rightarrow> error + ucb" where
  "ucb1 nd parent_visits =
     (if visits nd = 0 then Inr Infinity
      else if parent_visits \<le> 0 then Inl MathDomain
      else if ln (real_of_int parent_visits) / real_of_int (visits nd) < 0 then Inl MathDomain
      else (let exploitation = q nd;
                exploration = UCB1_C * sqrt (ln (real_of_int parent_visits) / real_of_int (visits nd))
            in Inr (Finite (exploitation + exploration))))"

text \<open>\<open>max(xs, key=...)\<close>: the first element whose key no later key exceeds; a
  \<open>ValueError\<close> on an empty sequence; an error of the key function is passed on.\<close>

fun max_key_loop ::
    "('k \<Rightarrow> 'k \<Rightarrow> bool) \<Rightarrow> ('a \<Rightarrow> error + 'k) \<Rightarrow> 'a list \<Rightarrow> 'a \<Rightarrow> 'k \<Rightarrow> error + 'a" where
  "max_key_loop gt key [] best best_val = Inr best"
| "max_key_loop gt key (x # xs) best best_val =
     (case key x of
        Inl e \<Rightarrow> Inl e
      | Inr v \<Rightarrow> if gt v best_val then max_key_loop gt key xs x v
                 else max_key_loop gt key xs best best_val)"

definition max_key :: "('k \<Rightarrow> 'k \<Rightarrow> bool) \<Rightarrow> ('a \<Rightarrow> error + 'k) \<Rightarrow> 'a list \<Rightarrow> error + 'a" where
  "max_key gt key xs =
     (case xs of
        [] \<Rightarrow> Inl MaxEmpty
      | x # rest \<Rightarrow> (case key x of Inl e \<Rightarrow> Inl e | Inr v \<Rightarrow> max_key_loop gt key rest x v))"

text \<open>\<open>_select\<close>: the loop descends through child indices, so it is a partial function:
  \<open>None\<close> is a descent that never ends.\<close>

partial_function (option) select ::
    "'b position_oracle \<Rightarrow> 'b tree \<Rightarrow> nat \<Rightarrow> (error + nat) option" where
  "select orc t n =
     (if \<not> is_terminal orc (t ! n) \<and> is_fully_expanded (t ! n)
      then (case max_key ucb_gt (\<lambda>c. ucb1 (t ! c) (visits (t ! n))) (children (t ! n)) of
              Inl e \<Rightarrow> Some (Inl e)
            | Inr c \<Rightarrow> select orc t c)
      else Some (Inr n))"

subsection \<open>Expansion\<close>

definition expand ::
    "'b position_oracle \<Rightarrow> 'b tree \<Rightarrow> nat \<Rightarrow> rng \<Rightarrow> error + ('b tree \<times> nat \<times> rng)" where
  "expand orc t n g =
     (if untried_moves (t ! n) = [] then Inl PopEmpty
      else (let mv = last (untried_moves (t ! n));
                t1 = t[n := (t ! n)\<lparr>untried_moves := butlast (untried_moves (t ! n))\<rparr>];
                child_board = push orc (board (t1 ! n)) mv;
                (child, g') = new_node orc child_board (Some n) (Some mv) g;
                c = length t1;
                t2 = t1 @ [child];
                t3 = t2[n := (t2 ! n)\<lparr>children := children (t2 ! n) @ [c]\<rparr>]
            in Inr (t3, c, g')))"

subsection \<open>Rollout\<close>

definition ROLLOUT_DEPTH :: int where
  "ROLLOUT_DEPTH = 40"

function rollout_loop ::
    "'b position_oracle \<Rightarrow> 'b \<Rightarrow> int \<Rightarrow> rng \<Rightarrow> (error + 'b) \<times> rng" where
  "rollout_loop orc sim depth g =
     (if \<not> is_game_over orc sim \<and> depth < ROLLOUT_DEPTH
      then (case choice (legal_moves orc sim) g of
              (Inl e, g') \<Rightarrow> (Inl e, g')
            | (Inr mv, g') \<Rightarrow> rollout_loop orc (push orc sim mv) (depth + 1) g')
      else (Inr sim, g))"
  by pat_completeness auto
termination
  by (relation "measure (\<lambda>(orc, sim, depth, g). nat (ROLLOUT_DEPTH - depth))") auto

definition rollout :: "'b position_oracle \<Rightarrow> 'b \<Rightarrow> rng \<Rightarrow> (error + real) \<times> rng" where
  "rollout orc brd g =
     (case rollout_loop orc brd 0 g of
        (Inl e, g') \<Rightarrow> (Inl e, g')
      | (Inr sim, g') \<Rightarrow>
          (if is_game_over orc sim
           then (let res = result orc sim in
                 if res = ''1-0'' then (Inr 1, g')
                 else if res = ''0-1'' then (Inr (- 1), g')
                 else (Inr 0, g'))
           else (Inr (material_eval orc sim), g')))"

subsection \<open>Backpropagation\<close>

text \<open>\<open>_backpropagate\<close> follows the parent references until it finds none.\<close>

partial_function (option) backpropagate ::
    "'b position_oracle \<Rightarrow> 'b tree \<Rightarrow> nat option \<Rightarrow> real \<Rightarrow> 'b tree option" where
  "backpropagate orc t current result_white =
     (case current of
        None \<Rightarrow> Some t
      | Some c \<Rightarrow>
          backpropagate orc
            (t[c := (if turn orc (board (t ! c)) = Black
                     then (t ! c)\<lparr>visits := visits (t ! c) + 1,
                                 total_value := total_value (t ! c) + result_white\<rparr>
                     else (t ! c)\<lparr>visits := visits (t ! c) + 1,
                                 total_value := total_value (t ! c) - result_white\<rparr>)])
            (parent (t ! c)) result_white)"

subsection \<open>The search\<close>

text \<open>One pass of the \<open>while\<close> loop of \<open>_mcts_search\<close>: select, expand, roll out,
  backpropagate.\<close>

definition mcts_iteration ::
    "'b position_oracle \<Rightarrow> 'b tree \<times> rng \<Rightarrow> (error + 'b tree \<times> rng) option" where
  "mcts_iteration orc s =
     (case s of (t, g) \<Rightarrow>
        (case select orc t 0 of
           None \<Rightarrow> None
         | Some (Inl e) \<Rightarrow> Some (Inl e)
         | Some (Inr n) \<Rightarrow>
             (case (if \<not> is_terminal orc (t ! n) \<and> \<not> is_fully_expanded (t ! n)
                    then expand orc t n g else Inr (t, n, g)) of
                Inl e \<Rightarrow> Some (Inl e)
              | Inr (t1, n1, g1) \<Rightarrow>
                  (case rollout orc (board (t1 ! n1)) g1 of
                     (Inl e, g2) \<Rightarrow> Some (Inl e)
                   | (Inr result_white, g2) \<Rightarrow>
                       (case backpropagate orc t1 (Some n1) result_white of
                          None \<Rightarrow> None
                        | Some t2 \<Rightarrow> Some (Inr (t2, g2)))))))"

text \<open>
  The wall clock is outside the model: the loop runs as long as \<open>time.monotonic()\<close> is before
  the deadline, and the number of passes the clock admits is the parameter \<open>iterations\<close>.
\<close>

fun mcts_loop ::
    "'b position_oracle \<Rightarrow> nat \<Rightarrow> 'b tree \<times> rng \<Rightarrow> (error + 'b tree \<times> rng) option" where
  "mcts_loop orc 0 s = Some (Inr s)"
| "mcts_loop orc (Suc k) s =
     (case mcts_iteration orc s of
        None \<Rightarrow> None
      | Some (Inl e) \<Rightarrow> Some (Inl e)
      | Some (Inr s') \<Rightarrow> mcts_loop orc k s')"

text \<open>\<open>_mcts_search\<close>.  The value returned is \<open>best_child.move\<close>, an optional move in the
  source.\<close>

definition mcts_search ::
    "'b position_oracle \<Rightarrow> 'b \<Rightarrow> nat \<Rightarrow> rng \<Rightarrow> (error + move option) option" where
  "mcts_search orc brd iterations g =
     (let legal = legal_moves orc brd in
      if legal = [] then Some (Inl NoLegalMoves)
      else if length legal = 1 then Some (Inr (Some (legal ! 0)))
      else (let (root, g1) = new_node orc brd None None g in
            case mcts_loop orc iterations ([root], g1) of
              None \<Rightarrow> None
            | Some (Inl e) \<Rightarrow> Some (Inl e)
            | Some (Inr (t, g2)) \<Rightarrow>
                (if children (t ! 0) = []
                 then (case choice legal g2 of
                         (Inl e, g3) \<Rightarrow> Some (Inl e)
                       | (Inr mv, g3) \<Rightarrow> Some (Inr (Some mv)))
                 else (case max_key (>) (\<lambda>c. Inr (visits (t ! c))) (children (t ! 0)) of
                         Inl e \<Rightarrow> Some (Inl e)
                       | Inr best_child \<Rightarrow> Some (Inr (move (t ! best_child)))))))"

section \<open>The search facade\<close>

text \<open>
  \<open>select_move\<close> copies the caller's board and hands the copy to the search.  To tell the
  caller's board object from the copy, the boards live in a store and are referred to by
  index: copying allocates a new board with the same state, and the search reads and
  writes the copy only.  The worker thread that runs the search is not part of the model.
\<close>

type_synonym 'b heap = "'b list"

definition copy_board :: "'b heap \<Rightarrow> nat \<Rightarrow> 'b heap \<times> nat" where
  "copy_board h r = (h @ [h ! r], length h)"

definition minimax_select_move ::
    "nat \<Rightarrow> 'b position_oracle \<Rightarrow> int \<Rightarrow> 'b heap \<Rightarrow> nat \<Rightarrow> ((error + move) \<times> 'b heap) option" where
  "minimax_select_move fuel orc depth h brd =
     (let (h1, board_copy) = copy_board h brd in
      case search_root fuel orc (h1 ! board_copy) depth of
        None \<Rightarrow> None
      | Some (res, b') \<Rightarrow> Some (res, h1[board_copy := b']))"

definition mcts_select_move ::
    "'b position_oracle \<Rightarrow> nat \<Rightarrow> rng \<Rightarrow> 'b heap \<Rightarrow> nat \<Rightarrow> ((error + move option) \<times> 'b heap) option" where
  "mcts_select_move orc iterations g h brd =
     (let (h1, board_copy) = copy_board h brd in
      case mcts_search orc (h1 ! board_copy) iterations g of
        None \<Rightarrow> None
      | Some res \<Rightarrow> Some (res, h1))"

section \<open>The unpruned search of the specification\<close>

text \<open>
  The specification compares the pruned engine with "an unpruned exhaustive negamax search
  over the same positions" with the same move ordering.  These two definitions follow
  those words: the same recursion, over the moves in the order of \<open>ordered_moves\<close>, with no
  window and no cutoff; at the root the first move with the best score is kept.
\<close>

fun exhaustive_negamax :: "'b position_oracle \<Rightarrow> 'b \<Rightarrow> nat \<Rightarrow> int" where
  "exhaustive_negamax orc brd 0 = evaluate orc brd"
| "exhaustive_negamax orc brd (Suc d) =
     (if is_game_over orc brd then evaluate orc brd
      else fold (\<lambda>mv best. max best (- exhaustive_negamax orc (push orc brd mv) d))
             (fst (ordered_moves orc brd)) (- CHECKMATE_SCORE - 1))"

definition exhaustive_root :: "'b position_oracle \<Rightarrow> 'b \<Rightarrow> nat \<Rightarrow> error + move \<times> int" where
  "exhaustive_root orc brd depth =
     (case fst (ordered_moves orc brd) of
        [] \<Rightarrow> Inl NoLegalMoves
      | m0 # rest \<Rightarrow>
          Inr (fold (\<lambda>mv (best_move, best_score).
                       let score = - exhaustive_negamax orc (push orc brd mv) (depth - 1)
                       in if score > best_score then (mv, score) else (best_move, best_score))
                 (m0 # rest) (m0, - CHECKMATE_SCORE - 1)))"

section \<open>Notions used in the statements and proofs\<close>

text \<open>The contribution of one square to the evaluation, with the index into the table
  written out: White reads the table at the vertically mirrored square.\<close>

definition square_term :: "'b position_oracle \<Rightarrow> 'b \<Rightarrow> nat \<Rightarrow> int" where
  "square_term orc brd sq =
     (case piece_at orc brd sq of
        None \<Rightarrow> 0
      | Some pc \<Rightarrow>
          if color pc = White
          then PIECE_VALUES (piece_type pc) + PST (piece_type pc) ! ((7 - sq div 8) * 8 + sq mod 8)
          else - (PIECE_VALUES (piece_type pc) + PST (piece_type pc) ! sq))"

text \<open>The sort key of a move, without the board that \<open>move_order_key\<close> hands back.\<close>

definition order_key :: "'b position_oracle \<Rightarrow> 'b \<Rightarrow> move \<Rightarrow> int" where
  "order_key orc brd mv = fst (move_order_key orc brd mv)"

text \<open>What a fail-soft alpha-beta result \<open>r\<close> says about the exact value \<open>v\<close>: an upper
  bound at or below \<open>alpha\<close>, a lower bound at or above \<open>beta\<close>, exact in between.\<close>

definition ab_bounds :: "int \<Rightarrow> int \<Rightarrow> int \<Rightarrow> int \<Rightarrow> bool" where
  "ab_bounds r v alpha beta \<longleftrightarrow>
     (r \<le> alpha \<longrightarrow> v \<le> r) \<and> (beta \<le> r \<longrightarrow> r \<le> v) \<and> (alpha < r \<and> r < beta \<longrightarrow> r = v)"

text \<open>The victim value, aggressor value and promotion bonus that \<open>_move_order_key\<close>
  computes for a move.\<close>

definition victim_value :: "'b position_oracle \<Rightarrow> 'b \<Rightarrow> move \<Rightarrow> int" where
  "victim_value orc brd mv =
     (case piece_at orc brd (to_square mv) of
        Some victim \<Rightarrow> PIECE_VALUES (piece_type victim)
      | None \<Rightarrow> PIECE_VALUES Pawn)"

definition aggressor_value :: "'b position_oracle \<Rightarrow> 'b \<Rightarrow> move \<Rightarrow> int" where
  "aggressor_value orc brd mv =
     (case piece_at orc brd (from_square mv) of
        Some aggressor \<Rightarrow> PIECE_VALUES (piece_type aggressor)
      | None \<Rightarrow> 0)"

definition promotion_bonus :: "move \<Rightarrow> int" where
  "promotion_bonus mv = (case promotion mv of Some pt \<Rightarrow> PIECE_VALUES pt | None \<Rightarrow> 0)"

text \<open>The update that \<open>_backpropagate\<close> makes to one node.\<close>

definition visit :: "'b position_oracle \<Rightarrow> real \<Rightarrow> 'b node \<Rightarrow> 'b node" where
  "visit orc result_white nd =
     (if turn orc (board nd) = Black
      then nd\<lparr>visits := visits nd + 1, total_value := total_value nd + result_white\<rparr>
      else nd\<lparr>visits := visits nd + 1, total_value := total_value nd - result_white\<rparr>)"

text \<open>\<open>on_path t c i\<close>: node \<open>i\<close> is reached from node \<open>c\<close> by following parent references,
  so it lies on the path from \<open>c\<close> to the root.\<close>

inductive on_path :: "'b tree \<Rightarrow> nat \<Rightarrow> nat \<Rightarrow> bool" for t :: "'b tree" and c :: nat where
  start: "on_path t c c"
| step: "on_path t c i \<Longrightarrow> parent (t ! i) = Some p \<Longrightarrow> on_path t c p"

text \<open>Every parent reference points to a node created earlier.\<close>

definition parents_below :: "'b tree \<Rightarrow> bool" where
  "parents_below t \<longleftrightarrow> (\<forall>i<length t. \<forall>p. parent (t ! i) = Some p \<longrightarrow> p < i)"

text \<open>
  The shape of a search tree built by \<open>_mcts_search\<close>: the root has no parent; every other
  node has an earlier parent that lists it as a child, was reached by a legal move of the
  parent's position and is visited at most as often as the parent; children are later
  nodes, listed once; visit counts are not negative; untried moves are legal moves; a
  node whose game is not over has an untried move or a child.
\<close>

definition node_ok :: "'b position_oracle \<Rightarrow> 'b tree \<Rightarrow> nat \<Rightarrow> bool" where
  "node_ok orc t i \<longleftrightarrow>
     (0 < i \<longrightarrow> (\<exists>p<i. parent (t ! i) = Some p \<and> i \<in> set (children (t ! p)) \<and>
                      visits (t ! i) \<le> visits (t ! p) \<and>
                      (\<exists>m. move (t ! i) = Some m \<and> m \<in> set (legal_moves orc (board (t ! p)))))) \<and>
     (\<forall>c\<in>set (children (t ! i)). i < c \<and> c < length t \<and> parent (t ! c) = Some i) \<and>
     distinct (children (t ! i)) \<and>
     0 \<le> visits (t ! i) \<and>
     set (untried_moves (t ! i)) \<subseteq> set (legal_moves orc (board (t ! i))) \<and>
     (\<not> is_game_over orc (board (t ! i)) \<longrightarrow> untried_moves (t ! i) \<noteq> [] \<or> children (t ! i) \<noteq> [])"

definition tree_inv :: "'b position_oracle \<Rightarrow> 'b tree \<Rightarrow> bool" where
  "tree_inv orc t \<longleftrightarrow> t \<noteq> [] \<and> parent (t ! 0) = None \<and> (\<forall>i<length t. node_ok orc t i)"

definition children_visits :: "'b tree \<Rightarrow> int" where
  "children_visits t = (\<Sum>c\<leftarrow>children (t ! 0). visits (t ! c))"

text \<open>The tree after \<open>_expand\<close> on node \<open>n\<close>.\<close>

definition expanded :: "'b position_oracle \<Rightarrow> 'b tree \<Rightarrow> nat \<Rightarrow> rng \<Rightarrow> 'b tree" where
  "expanded orc t n g =
     t[n := (t ! n)\<lparr>untried_moves := butlast (untried_moves (t ! n)),
                    children := children (t ! n) @ [length t]\<rparr>]
     @ [fst (new_node orc (push orc (board (t ! n)) (last (untried_moves (t ! n))))
               (Some n) (Some (last (untried_moves (t ! n)))) g)]"

section \<open>Concrete positions\<close>

text \<open>
  A scripted oracle answers from a table: a board is the list of the moves applied to a
  fixed starting position, latest first, and the table gives the library's answers for
  each such board.
\<close>

record position =
  p_legal_moves :: "move list"
  p_game_over :: bool
  p_checkmate :: bool
  p_stalemate :: bool
  p_insufficient_material :: bool
  p_claim_draw :: bool
  p_check :: bool
  p_captures :: "move list"
  p_pieces :: "(nat \<times> piece) list"
  p_turn :: color
  p_result :: string

definition scripted :: "(move list \<Rightarrow> position) \<Rightarrow> move list position_oracle" where
  "scripted script =
     \<lparr>legal_moves = (\<lambda>b. p_legal_moves (script b)),
      push = (\<lambda>b mv. mv # b),
      pop = tl,
      is_checkmate = (\<lambda>b. p_checkmate (script b)),
      is_stalemate = (\<lambda>b. p_stalemate (script b)),
      is_insufficient_material = (\<lambda>b. p_insufficient_material (script b)),
      can_claim_draw = (\<lambda>b. p_claim_draw (script b)),
      is_game_over = (\<lambda>b. p_game_over (script b)),
      is_check = (\<lambda>b. p_check (script b)),
      is_capture = (\<lambda>b mv. mv \<in> set (p_captures (script b))),
      piece_at = (\<lambda>b sq. map_of (p_pieces (script b)) sq),
      turn = (\<lambda>b. p_turn (script b)),
      result = (\<lambda>b. p_result (script b))\<rparr>"

definition mk_move :: "nat \<Rightarrow> nat \<Rightarrow> move" where
  "mk_move f t = \<lparr>from_square = f, to_square = t, promotion = None\<rparr>"

definition mk_piece :: "color \<Rightarrow> piece_type \<Rightarrow> piece" where
  "mk_piece c k = \<lparr>piece_type = k, color = c\<rparr>"

text \<open>
  FEN \<^verbatim>\<open>8/8/8/8/8/2k4r/8/K7 w - - 149 200\<close>: White king a1 (square 0), Black king c3
  (square 18), Black rook h3 (square 23), White to move, 149 half-moves since the last
  capture or pawn move.  White has two legal moves, Ka2 and Kb1; a draw can be claimed, but
  the game is not over.  After any move the half-move clock is at 150 or the rook is gone,
  so every later position is over and drawn; the moves of those positions are left out of
  the table.
\<close>

definition fifty_script :: "move list \<Rightarrow> position" where
  "fifty_script b =
     (if b = [] then
        \<lparr>p_legal_moves = [mk_move 0 8, mk_move 0 1], p_game_over = False, p_checkmate = False,
         p_stalemate = False, p_insufficient_material = False, p_claim_draw = True,
         p_check = False, p_captures = [],
         p_pieces = [(0, mk_piece White King), (18, mk_piece Black King), (23, mk_piece Black Rook)],
         p_turn = White, p_result = ''*''\<rparr>
      else
        \<lparr>p_legal_moves = [], p_game_over = True, p_checkmate = False,
         p_stalemate = False, p_insufficient_material = False, p_claim_draw = True,
         p_check = False, p_captures = [], p_pieces = [],
         p_turn = (if even (length b) then White else Black), p_result = ''1/2-1/2''\<rparr>)"

definition fifty :: "move list position_oracle" where
  "fifty = scripted fifty_script"

text \<open>
  FEN \<^verbatim>\<open>6k1/8/8/3pp3/4P3/8/n5PP/R6K w - - 0 1\<close>: White king h1 (7), rook a1 (0), pawns
  e4 (28), g2 (14), h2 (15); Black king g8 (62), knight a2 (8), pawns d5 (35), e5 (36);
  White to move.  The 13 legal moves are listed in the order in which python-chess
  generates them; two are captures, Rxa2 and exd5, and no move gives check.  For the
  boards after a move the table gives the check flag, which is all that move ordering
  asks of them.
\<close>

definition capture_script :: "move list \<Rightarrow> position" where
  "capture_script b =
     (if b = [] then
        \<lparr>p_legal_moves =
           [mk_move 7 6, mk_move 0 8, mk_move 0 6, mk_move 0 5, mk_move 0 4, mk_move 0 3,
            mk_move 0 2, mk_move 0 1, mk_move 28 35, mk_move 15 23, mk_move 14 22,
            mk_move 15 31, mk_move 14 30],
         p_game_over = False, p_checkmate = False,
         p_stalemate = False, p_insufficient_material = False, p_claim_draw = False,
         p_check = False, p_captures = [mk_move 0 8, mk_move 28 35],
         p_pieces = [(0, mk_piece White Rook), (7, mk_piece White King), (14, mk_piece White Pawn),
                     (15, mk_piece White Pawn), (28, mk_piece White Pawn), (8, mk_piece Black Knight),
                     (35, mk_piece Black Pawn), (36, mk_piece Black Pawn), (62, mk_piece Black King)],
         p_turn = White, p_result = ''*''\<rparr>
      else
        \<lparr>p_legal_moves = [], p_game_over = False, p_checkmate = False,
         p_stalemate = False, p_insufficient_material = False, p_claim_draw = False,
         p_check = False, p_captures = [], p_pieces = [],
         p_turn = Black, p_result = ''*''\<rparr>)"

definition capture_pos :: "move list position_oracle" where
  "capture_pos = scripted capture_script"

text \<open>
  FEN \<^verbatim>\<open>8/8/8/8/8/1k6/7r/K7 w - - 0 1\<close>: White king a1 (0), Black king b3 (17), Black rook
  h2 (15), White to move.  Kb1 is the only legal move.  The table covers this position
  and the position after Kb1 (Black to move, 19 legal moves, no check).
\<close>

definition single_script :: "move list \<Rightarrow> position" where
  "single_script b =
     (if b = [] then
        \<lparr>p_legal_moves = [mk_move 0 1], p_game_over = False, p_checkmate = False,
         p_stalemate = False, p_insufficient_material = False, p_claim_draw = False,
         p_check = False, p_captures = [],
         p_pieces = [(0, mk_piece White King), (17, mk_piece Black King), (15, mk_piece Black Rook)],
         p_turn = White, p_result = ''*''\<rparr>
      else
        \<lparr>p_legal_moves =
           [mk_move 17 26, mk_move 17 25, mk_move 17 24, mk_move 17 18, mk_move 17 16,
            mk_move 15 63, mk_move 15 55, mk_move 15 47, mk_move 15 39, mk_move 15 31,
            mk_move 15 23, mk_move 15 14, mk_move 15 13, mk_move 15 12, mk_move 15 11,
            mk_move 15 10, mk_move 15 9, mk_move 15 8, mk_move 15 7],
         p_game_over = False, p_checkmate = False,
         p_stalemate = False, p_insufficient_material = False, p_claim_draw = False,
         p_check = False, p_captures = [],
         p_pieces = [(1, mk_piece White King), (17, mk_piece Black King), (15, mk_piece Black Rook)],
         p_turn = Black, p_result = ''*''\<rparr>)"

definition single :: "move list position_oracle" where
  "single = scripted single_script"

text \<open>
  FEN \<^verbatim>\<open>4k3/8/8/8/8/8/8/4K3 w - - 0 1\<close>: White king e1 (4) against Black king e8 (60),
  White to move.  The king has five legal moves, and the game is over: neither side has
  mating material, so \<open>is_game_over\<close> holds and the result is a draw.  Every later
  position is king against king as well; the moves of those positions are left out.
\<close>

definition kings_script :: "move list \<Rightarrow> position" where
  "kings_script b =
     \<lparr>p_legal_moves = (if b = [] then [mk_move 4 13, mk_move 4 12, mk_move 4 11, mk_move 4 5, mk_move 4 3]
                        else []),
      p_game_over = True, p_checkmate = False,
      p_stalemate = False, p_insufficient_material = True, p_claim_draw = False,
      p_check = False, p_captures = [],
      p_pieces = (if b = [] then [(4, mk_piece White King), (60, mk_piece Black King)] else []),
      p_turn = (if even (length b) then White else Black), p_result = ''1/2-1/2''\<rparr>"

definition kings :: "move list position_oracle" where
  "kings = scripted kings_script"

text \<open>The root node and the random source after its creation, for a search on the two
  kings with a random source that always draws 0.\<close>

definition kings_root :: "move list node" where
  "kings_root = fst (new_node kings [] None None (\<lambda>i. 0))"

definition kings_rng :: rng where
  "kings_rng = snd (new_node kings [] None None (\<lambda>i. 0))"

text \<open>A search tree over the position \<open>fifty\<close>: the root, expanded once by Kb1.\<close>

definition fifty_tree :: "move list tree" where
  "fifty_tree =
     [\<lparr>board = [], parent = None, move = None, children = [1],
       untried_moves = [mk_move 0 8], visits = 0, total_value = 0\<rparr>,
      \<lparr>board = [mk_move 0 1], parent = Some 0, move = Some (mk_move 0 1), children = [],
       untried_moves = [], visits = 0, total_value = 0\<rparr>]"

text \<open>
  A small game tree that is not a chess position, for a search in which a cutoff occurs:
  two moves at the root, two replies to each, and material on the board after the
  replies that makes the second reply to the second root move irrelevant.
\<close>

definition cutoff_script :: "move list \<Rightarrow> position" where
  "cutoff_script b =
     \<lparr>p_legal_moves =
        (if b = [] then [mk_move 0 1, mk_move 0 2]
         else if length b = 1 then [mk_move 60 61, mk_move 60 62]
         else []),
      p_game_over = False, p_checkmate = False,
      p_stalemate = False, p_insufficient_material = False, p_claim_draw = False,
      p_check = False, p_captures = [],
      p_pieces =
        (if b = [mk_move 60 61, mk_move 0 1] then [(8, mk_piece White Rook)]
         else if b = [mk_move 60 62, mk_move 0 1] then [(8, mk_piece White Pawn)]
         else if b = [mk_move 60 62, mk_move 0 2] then [(0, mk_piece Black Queen)]
         else []),
      p_turn = (if even (length b) then White else Black), p_result = ''*''\<rparr>"

definition cutoff_tree :: "move list position_oracle" where
  "cutoff_tree = scripted cutoff_script"

section \<open>Evaluation: properties\<close>

lemma MIRROR_val: "MIRROR = [56,57,58,59,60,61,62,63,48,49,50,51,52,53,54,55,40,41,42,43,44,45,46,47,32,33,34,35,36,37,38,39,24,25,26,27,28,29,30,31,16,17,18,19,20,21,22,23,8,9,10,11,12,13,14,15,0,1,2,3,4,5,6,7]"
  unfolding MIRROR_def by (simp add: upt_rec)

lemma MIRROR_nth_all: "list_all (\<lambda>sq. MIRROR ! sq = (7 - sq div 8) * 8 + sq mod 8) [0..<64]"
  unfolding MIRROR_val by (simp add: upt_rec)

lemma MIRROR_nth: "sq < 64 \<Longrightarrow> MIRROR ! sq = (7 - sq div 8) * 8 + sq mod 8"
  using MIRROR_nth_all by (simp add: list_all_iff)

lemma PST_WHITE_nth: "sq < 64 \<Longrightarrow> PST_WHITE pt ! sq = PST pt ! ((7 - sq div 8) * 8 + sq mod 8)"
  by (simp add: PST_WHITE_def MIRROR_nth)

lemma PST_BLACK_nth: "sq < 64 \<Longrightarrow> PST_BLACK pt ! sq = PST pt ! sq"
  by (simp add: PST_BLACK_def)

lemma evaluate_square_term:
  "sq < 64 \<Longrightarrow> evaluate_square orc brd sq score = score + square_term orc brd sq"
  by (simp add: evaluate_square_def square_term_def PST_WHITE_nth PST_BLACK_nth Let_def split: option.splits)

lemma fold_evaluate_square:
  "n \<le> 64 \<Longrightarrow> fold (evaluate_square orc brd) [0..<n] s = s + (\<Sum>sq<n. square_term orc brd sq)"
  by (induction n arbitrary: s) (simp_all add: evaluate_square_term)

lemma PST_length: "length (PST pt) = 64"
  by (cases pt) (simp_all add: PAWN_TABLE_def KNIGHT_TABLE_def BISHOP_TABLE_def ROOK_TABLE_def
      QUEEN_TABLE_def KING_TABLE_MIDDLEGAME_def)

lemma PST_entries: "x \<in> set (PST pt) \<Longrightarrow> - 50 \<le> x \<and> x \<le> 50"
  by (cases pt) (auto simp: PAWN_TABLE_def KNIGHT_TABLE_def BISHOP_TABLE_def ROOK_TABLE_def
      QUEEN_TABLE_def KING_TABLE_MIDDLEGAME_def)

lemma PST_nth_bound: "i < 64 \<Longrightarrow> - 50 \<le> PST pt ! i \<and> PST pt ! i \<le> 50"
  using PST_entries[of "PST pt ! i" pt] by (simp add: PST_length)

lemma PIECE_VALUES_bound: "0 \<le> PIECE_VALUES pt \<and> PIECE_VALUES pt \<le> 900"
  by (cases pt) simp_all

lemma mirror_index_bound: "sq < 64 \<Longrightarrow> (7 - sq div 8) * 8 + sq mod 8 < (64::nat)"
  by presburger

lemma square_term_bound: "sq < 64 \<Longrightarrow> \<bar>square_term orc brd sq\<bar> \<le> 950"
proof -
  assume sq: "sq < 64"
  show ?thesis
  proof (cases "piece_at orc brd sq")
    case None
    then show ?thesis by (simp add: square_term_def)
  next
    case (Some pc)
    from PST_nth_bound[OF mirror_index_bound[OF sq], of "piece_type pc"]
      PST_nth_bound[OF sq, of "piece_type pc"] PIECE_VALUES_bound[of "piece_type pc"] Some
    show ?thesis by (simp add: square_term_def abs_le_iff)
  qed
qed

lemma sum_square_term_bound: "n \<le> 64 \<Longrightarrow> \<bar>\<Sum>sq<n. square_term orc brd sq\<bar> \<le> 950 * int n"
proof (induction n)
  case 0
  then show ?case by simp
next
  case (Suc n)
  then have "\<bar>\<Sum>sq<n. square_term orc brd sq\<bar> \<le> 950 * int n" by simp
  moreover have "\<bar>square_term orc brd n\<bar> \<le> 950" using Suc.prems by (simp add: square_term_bound)
  ultimately show ?case by simp
qed

lemma evaluate_bounds: "- CHECKMATE_SCORE \<le> evaluate orc brd \<and> evaluate orc brd \<le> CHECKMATE_SCORE"
  using sum_square_term_bound[of 64 orc brd]
  by (simp add: evaluate_def SQUARES_def fold_evaluate_square CHECKMATE_SCORE_def Let_def abs_le_iff)

text \<open>
  C2.  The static evaluation is: minus the mate score (-100000) when the side to move is
  checkmated; 0 on stalemate, insufficient material or a claimable draw; otherwise the
  sum over the 64 squares of base value plus table bonus of the piece standing there,
  counted positive for White (table read at the mirrored square) and negative for Black
  (table read at the square itself), and negated when Black is to move.
\<close>

theorem evaluate_rules:
  "evaluate orc brd =
     (if is_checkmate orc brd then - 100000
      else if is_stalemate orc brd \<or> is_insufficient_material orc brd \<or> can_claim_draw orc brd
      then 0
      else (if turn orc brd = Black then - 1 else 1) *
           (\<Sum>sq<64. case piece_at orc brd sq of
                        None \<Rightarrow> 0
                      | Some pc \<Rightarrow>
                          if color pc = White
                          then PIECE_VALUES (piece_type pc) + PST_WHITE (piece_type pc) ! sq
                          else - (PIECE_VALUES (piece_type pc) + PST_BLACK (piece_type pc) ! sq)))"
proof -
  have "(\<Sum>sq<64. case piece_at orc brd sq of
                        None \<Rightarrow> 0
                      | Some pc \<Rightarrow>
                          if color pc = White
                          then PIECE_VALUES (piece_type pc) + PST_WHITE (piece_type pc) ! sq
                          else - (PIECE_VALUES (piece_type pc) + PST_BLACK (piece_type pc) ! sq))
        = (\<Sum>sq<64. square_term orc brd sq)"
    by (rule sum.cong) (auto simp: square_term_def PST_WHITE_nth PST_BLACK_nth split: option.splits)
  then show ?thesis
    by (simp add: evaluate_def SQUARES_def fold_evaluate_square CHECKMATE_SCORE_def Let_def)
qed

section \<open>Move ordering: properties\<close>

lemma move_order_key_frame: "pop_push orc \<Longrightarrow> snd (move_order_key orc brd mv) = brd"
  by (simp add: move_order_key_def pop_push_def Let_def split: option.splits)

lemma move_order_key_eq: "pop_push orc \<Longrightarrow> move_order_key orc brd mv = (order_key orc brd mv, brd)"
  using move_order_key_frame[of orc brd mv] by (simp add: order_key_def prod_eq_iff)

lemma sort_keys_eq:
  "pop_push orc \<Longrightarrow> sort_keys orc brd mvs = (map (\<lambda>mv. (order_key orc brd mv, mv)) mvs, brd)"
  by (induction mvs) (simp_all add: move_order_key_eq)

lemma insort_key_decorated:
  "insort_key fst (k x, x) (map (\<lambda>y. (k y, y)) ys) = map (\<lambda>y. (k y, y)) (insort_key k x ys)"
  by (induction ys) simp_all

lemma sort_key_decorated:
  "sort_key fst (map (\<lambda>y. (k y, y)) xs) = map (\<lambda>y. (k y, y)) (sort_key k xs)"
  by (induction xs) (simp_all add: insort_key_decorated)

lemma ordered_moves_eq:
  "pop_push orc \<Longrightarrow> ordered_moves orc brd = (sort_key (order_key orc brd) (legal_moves orc brd), brd)"
  by (simp add: ordered_moves_def sort_keys_eq sort_key_decorated comp_def)

lemma set_sort_keys: "set (map snd (fst (sort_keys orc brd mvs))) = set mvs"
  by (induction mvs arbitrary: brd) (simp_all add: split_beta)

lemma mset_sort_keys: "mset (map snd (fst (sort_keys orc brd mvs))) = mset mvs"
  by (induction mvs arbitrary: brd) (simp_all add: split_beta)

lemma mset_ordered_moves: "mset (fst (ordered_moves orc brd)) = mset (legal_moves orc brd)"
proof -
  have "mset (map snd (sort_key fst ks)) = mset (map snd ks)" for ks :: "(int \<times> move) list"
    by (metis mset_map mset_sort)
  then show ?thesis
    by (simp add: ordered_moves_def split_beta Let_def mset_sort_keys del: mset_map)
qed

lemma pop_push_scripted: "pop_push (scripted s)"
  by (simp add: pop_push_def scripted_def)

lemma PIECE_VALUES_range: "0 \<le> PIECE_VALUES pt \<and> PIECE_VALUES pt \<le> 900"
  by (cases pt) simp_all

lemma order_key_formula:
  "order_key orc brd mv =
     (if is_capture orc brd mv
      then - 20000 - (10 * victim_value orc brd mv - aggressor_value orc brd mv)
      else if is_check orc (push orc brd mv) then - 10000 else 0) - promotion_bonus mv"
  by (simp add: order_key_def move_order_key_def victim_value_def aggressor_value_def
      promotion_bonus_def Let_def split: option.splits)

lemma victim_value_range: "0 \<le> victim_value orc brd mv \<and> victim_value orc brd mv \<le> 900"
  using PIECE_VALUES_range by (simp add: victim_value_def split: option.splits)

lemma aggressor_value_range: "0 \<le> aggressor_value orc brd mv \<and> aggressor_value orc brd mv \<le> 900"
  using PIECE_VALUES_range by (simp add: aggressor_value_def split: option.splits)

lemma promotion_bonus_range: "0 \<le> promotion_bonus mv \<and> promotion_bonus mv \<le> 900"
  using PIECE_VALUES_range by (simp add: promotion_bonus_def split: option.splits)

lemma capture_before_quiet:
  "is_capture orc brd m \<Longrightarrow> \<not> is_capture orc brd m' \<Longrightarrow> order_key orc brd m < order_key orc brd m'"
  using victim_value_range[of orc brd m] aggressor_value_range[of orc brd m]
    promotion_bonus_range[of m] promotion_bonus_range[of m']
  by (simp add: order_key_formula)

lemma check_before_quiet:
  "\<not> is_capture orc brd m \<Longrightarrow> is_check orc (push orc brd m) \<Longrightarrow>
   \<not> is_capture orc brd m' \<Longrightarrow> \<not> is_check orc (push orc brd m') \<Longrightarrow>
   order_key orc brd m < order_key orc brd m'"
  using promotion_bonus_range[of m] promotion_bonus_range[of m']
  by (simp add: order_key_formula)

text \<open>
  C6, as the code has it.  With an oracle whose \<open>pop\<close> undoes \<open>push\<close>, the move orderer
  returns the legal moves of the position (the same multiset), sorted ascending by key,
  moves of equal key in the oracle's order.  The key of a capture is
  \<open>- 20000 - (10 * victim value - aggressor value)\<close>, of a move that is no capture and gives
  check \<open>- 10000\<close>, of any other move 0, in each case minus the value of the promotion
  piece if there is one.  So every capture comes before every move that is no capture,
  and among those every move that gives check comes before every move that does not.
\<close>

theorem ordered_moves_sorted:
  assumes "pop_push orc"
  shows "mset (fst (ordered_moves orc brd)) = mset (legal_moves orc brd) \<and>
         sorted (map (order_key orc brd) (fst (ordered_moves orc brd))) \<and>
         (\<forall>k. filter (\<lambda>m. order_key orc brd m = k) (fst (ordered_moves orc brd)) =
              filter (\<lambda>m. order_key orc brd m = k) (legal_moves orc brd)) \<and>
         (\<forall>m. order_key orc brd m =
              (if is_capture orc brd m
               then - 20000 - (10 * victim_value orc brd m - aggressor_value orc brd m)
               else if is_check orc (push orc brd m) then - 10000 else 0) - promotion_bonus m) \<and>
         (\<forall>m m'. is_capture orc brd m \<and> \<not> is_capture orc brd m' \<longrightarrow>
              order_key orc brd m < order_key orc brd m') \<and>
         (\<forall>m m'. \<not> is_capture orc brd m \<and> is_check orc (push orc brd m) \<and>
                 \<not> is_capture orc brd m' \<and> \<not> is_check orc (push orc brd m') \<longrightarrow>
              order_key orc brd m < order_key orc brd m')"
proof -
  have om: "fst (ordered_moves orc brd) = sort_key (order_key orc brd) (legal_moves orc brd)"
    using assms by (simp add: ordered_moves_eq)
  have 1: "mset (fst (ordered_moves orc brd)) = mset (legal_moves orc brd)"
    by (rule mset_ordered_moves)
  have 2: "sorted (map (order_key orc brd) (fst (ordered_moves orc brd)))"
    unfolding om by (rule sorted_sort_key)
  have 3: "\<forall>k. filter (\<lambda>m. order_key orc brd m = k) (fst (ordered_moves orc brd)) =
              filter (\<lambda>m. order_key orc brd m = k) (legal_moves orc brd)"
    unfolding om by (simp add: sort_key_stable)
  from 1 2 3 show ?thesis
    using order_key_formula[of orc brd] capture_before_quiet[of orc brd] check_before_quiet[of orc brd]
    by blast
qed

theorem ordered_moves_sorted_witness:
  "pop_push capture_pos \<and>
   mset (fst (ordered_moves capture_pos [])) = mset (legal_moves capture_pos []) \<and>
   sorted (map (order_key capture_pos []) (fst (ordered_moves capture_pos []))) \<and>
   is_capture capture_pos [] (mk_move 0 8) \<and> \<not> is_capture capture_pos [] (mk_move 7 6) \<and>
   order_key capture_pos [] (mk_move 0 8) < order_key capture_pos [] (mk_move 7 6)"
proof -
  have pp: "pop_push capture_pos" by (simp add: capture_pos_def pop_push_scripted)
  have c: "is_capture capture_pos [] (mk_move 0 8) \<and> \<not> is_capture capture_pos [] (mk_move 7 6)"
    by (simp add: capture_pos_def scripted_def capture_script_def mk_move_def)
  from ordered_moves_sorted[OF pp, of "[]"] pp c show ?thesis by blast
qed

text \<open>
  Ranking captures by victim value minus aggressor value fails on the position
  \<open>capture_pos\<close>: exd5 (pawn takes pawn, 100 - 100 = 0) has the larger difference, Rxa2
  (rook takes knight, 320 - 500 = -180) the smaller, and the orderer puts Rxa2 first,
  since its key is \<open>- 20000 - (3200 - 500)\<close> against \<open>- 20000 - (1000 - 100)\<close>.
\<close>

theorem capture_rank_counterexample:
  "is_capture capture_pos [] (mk_move 28 35) \<and> is_capture capture_pos [] (mk_move 0 8) \<and>
   victim_value capture_pos [] (mk_move 0 8) - aggressor_value capture_pos [] (mk_move 0 8)
     < victim_value capture_pos [] (mk_move 28 35) - aggressor_value capture_pos [] (mk_move 28 35) \<and>
   fst (ordered_moves capture_pos []) =
     [mk_move 0 8, mk_move 28 35, mk_move 7 6, mk_move 0 6, mk_move 0 5, mk_move 0 4, mk_move 0 3,
      mk_move 0 2, mk_move 0 1, mk_move 15 23, mk_move 14 22, mk_move 15 31, mk_move 14 30]"
  by (simp add: ordered_moves_def capture_pos_def scripted_def capture_script_def
      move_order_key_def Let_def mk_move_def mk_piece_def victim_value_def aggressor_value_def)

section \<open>Negamax: termination\<close>

lemma negamax_returns_aux:
  "(0 \<le> depth \<longrightarrow> nat depth < fuel \<longrightarrow> (\<exists>r b'. negamax fuel orc b depth alpha beta = Some (r, b')))"
  "(1 \<le> depth \<longrightarrow> nat depth \<le> fuel' \<longrightarrow> (\<exists>r b'. negamax_moves fuel' orc b2 depth ms best alpha2 beta2 = Some (r, b')))"
proof (induction fuel orc b depth alpha beta and fuel' orc b2 depth ms best alpha2 beta2 rule: negamax_negamax_moves.induct)
  case (1 orc brd depth alpha beta)
  then show ?case by simp
next
  case (2 fuel orc brd depth alpha beta)
  show ?case
  proof (intro impI)
    assume d: "0 \<le> depth" and f: "nat depth < Suc fuel"
    show "\<exists>r b'. negamax (Suc fuel) orc brd depth alpha beta = Some (r, b')"
    proof (cases "depth = 0 \<or> is_game_over orc brd")
      case True
      then show ?thesis by auto
    next
      case False
      obtain moves board1 where om: "ordered_moves orc brd = (moves, board1)"
        by (cases "ordered_moves orc brd")
      from False d f have "1 \<le> depth" "nat depth \<le> fuel" by auto
      with 2[OF False om[symmetric]] False om show ?thesis by auto
    qed
  qed
next
  case (3 fuel orc brd depth best alpha beta)
  then show ?case by simp
next
  case (4 fuel orc brd depth mv mvs best alpha beta)
  show ?case
  proof (intro impI)
    assume d: "1 \<le> depth" and f: "nat depth \<le> fuel"
    then have "0 \<le> depth - 1" "nat (depth - 1) < fuel" by auto
    with 4(1) obtain r board1 where
      r: "negamax fuel orc (push orc brd mv) (depth - 1) (- beta) (- alpha) = Some (r, board1)"
      by blast
    show "\<exists>r b'. negamax_moves fuel orc brd depth (mv # mvs) best alpha beta = Some (r, b')"
      using 4(2)[OF r refl refl refl refl refl] d f r
      by (auto simp: Let_def)
  qed
qed

lemma search_root_moves_returns:
  "1 \<le> depth \<Longrightarrow> nat depth \<le> fuel \<Longrightarrow>
   \<exists>res b'. search_root_moves fuel orc b depth ms bm bs alpha beta = Some (res, b')"
proof (induction ms arbitrary: b bm bs alpha)
  case Nil
  then show ?case by simp
next
  case (Cons m ms)
  from Cons.prems have "0 \<le> depth - 1" "nat (depth - 1) < fuel" by auto
  with negamax_returns_aux(1)[of "depth - 1" fuel orc "push orc b m" "- beta" "- alpha"]
  obtain r b1 where "negamax fuel orc (push orc b m) (depth - 1) (- beta) (- alpha) = Some (r, b1)"
    by auto
  then show ?case using Cons.IH[OF Cons.prems, of "pop orc b1"] by (simp add: Let_def)
qed

lemma search_root_scored_returns:
  "1 \<le> depth \<Longrightarrow> nat depth \<le> fuel \<Longrightarrow> \<exists>res b'. search_root_scored fuel orc b depth = Some (res, b')"
proof -
  assume a: "1 \<le> depth" "nat depth \<le> fuel"
  obtain ms b1 where om: "ordered_moves orc b = (ms, b1)" by (cases "ordered_moves orc b")
  show ?thesis
  proof (cases ms)
    case Nil
    then show ?thesis by (simp add: search_root_scored_def om)
  next
    case (Cons m0 rest)
    from search_root_moves_returns[OF a, of orc b1 "m0 # rest" m0 "- CHECKMATE_SCORE - 1" "- CHECKMATE_SCORE - 1" "CHECKMATE_SCORE + 1"]
    obtain res b' where "search_root_moves fuel orc b1 depth (m0 # rest) m0 (- CHECKMATE_SCORE - 1)
      (- CHECKMATE_SCORE - 1) (CHECKMATE_SCORE + 1) = Some (res, b')" by (elim exE)
    then show ?thesis by (simp add: search_root_scored_def om Cons)
  qed
qed

text \<open>
  C10.  For every position and every depth of at least 0 the recursive search returns: a
  nesting of \<open>depth + 1\<close> calls is enough, because each call passes \<open>depth - 1\<close> on and a call
  with depth 0 (or on a finished game) returns at once.  So the root search returns for
  every depth of at least 1.
\<close>

theorem negamax_terminates:
  "(0 \<le> depth \<longrightarrow> nat depth < fuel \<longrightarrow>
      (\<exists>r b'. negamax fuel orc brd depth alpha beta = Some (r, b'))) \<and>
   (1 \<le> depth \<longrightarrow> nat depth \<le> fuel \<longrightarrow>
      (\<exists>res b'. search_root fuel orc brd depth = Some (res, b')))"
proof (intro conjI impI)
  assume "0 \<le> depth" "nat depth < fuel"
  then show "\<exists>r b'. negamax fuel orc brd depth alpha beta = Some (r, b')"
    using negamax_returns_aux(1)[of depth fuel orc brd alpha beta] by simp
next
  assume "1 \<le> depth" "nat depth \<le> fuel"
  from search_root_scored_returns[OF this, of orc brd]
  obtain res b' where "search_root_scored fuel orc brd depth = Some (res, b')"
    by (elim exE)
  then show "\<exists>res b'. search_root fuel orc brd depth = Some (res, b')"
    by (cases res) (auto simp: search_root_def)
qed


theorem negamax_terminates_witness:
  "(0::int) \<le> 2 \<and> nat 2 < (3::nat) \<and> (\<exists>r b'. negamax 3 fifty [] 2 (- 5) 5 = Some (r, b')) \<and>
   (1::int) \<le> 2 \<and> nat 2 \<le> (3::nat) \<and> (\<exists>res b'. search_root 3 fifty [] 2 = Some (res, b'))"
  using negamax_terminates[of 2 3 fifty "[]" "- 5" 5] by simp

section \<open>Negamax: pruning\<close>

lemma fold_max_ge: "a \<le> fold (\<lambda>mv (best::int). max best (f mv)) ms a"
proof (induction ms arbitrary: a)
  case Nil
  then show ?case by simp
next
  case (Cons m ms)
  have "a \<le> max a (f m)" by simp
  also have "\<dots> \<le> fold (\<lambda>mv best. max best (f mv)) ms (max a (f m))" by (rule Cons.IH)
  finally show ?case by simp
qed

lemma fold_max_max:
  "fold (\<lambda>mv (best::int). max best (f mv)) ms (max a c) = max c (fold (\<lambda>mv best. max best (f mv)) ms a)"
proof (induction ms arbitrary: a)
  case Nil
  then show ?case by (simp add: max.commute)
next
  case (Cons m ms)
  have "max (max a c) (f m) = max (max a (f m)) c" by (simp add: max.commute max.left_commute)
  then show ?case using Cons.IH[of "max a (f m)"] by simp
qed

lemma exhaustive_lower: "- CHECKMATE_SCORE - 1 \<le> exhaustive_negamax orc brd d"
proof (cases d)
  case 0
  then show ?thesis using evaluate_bounds[of orc brd] by simp
next
  case (Suc d')
  then show ?thesis
    using evaluate_bounds[of orc brd]
      fold_max_ge[of "- CHECKMATE_SCORE - 1" "\<lambda>mv. - exhaustive_negamax orc (push orc brd mv) d'"
        "fst (ordered_moves orc brd)"]
    by simp
qed

lemma negamax_frame:
  "pop_push orc \<Longrightarrow> 0 \<le> depth \<longrightarrow> nat depth < fuel \<longrightarrow>
     (\<exists>r. negamax fuel orc b depth alpha beta = Some (r, b) \<and> - CHECKMATE_SCORE - 1 \<le> r)"
  "pop_push orc \<Longrightarrow> 1 \<le> depth \<longrightarrow> nat depth \<le> fuel' \<longrightarrow>
     (\<exists>r. negamax_moves fuel' orc b2 depth ms best alpha2 beta2 = Some (r, b2) \<and> best \<le> r)"
proof (induction fuel orc b depth alpha beta and fuel' orc b2 depth ms best alpha2 beta2
    rule: negamax_negamax_moves.induct)
  case (1 orc brd depth alpha beta)
  then show ?case by simp
next
  case (2 fuel orc brd depth alpha beta)
  show ?case
  proof (intro impI)
    assume d: "0 \<le> depth" and f: "nat depth < Suc fuel"
    show "\<exists>r. negamax (Suc fuel) orc brd depth alpha beta = Some (r, brd) \<and> - CHECKMATE_SCORE - 1 \<le> r"
    proof (cases "depth = 0 \<or> is_game_over orc brd")
      case True
      then show ?thesis using evaluate_bounds[of orc brd] by auto
    next
      case False
      have om: "ordered_moves orc brd = (sort_key (order_key orc brd) (legal_moves orc brd), brd)"
        using 2(2) by (rule ordered_moves_eq)
      from False d f have "1 \<le> depth" "nat depth \<le> fuel" by auto
      with 2(1)[OF False om[symmetric] 2(2)] False om show ?thesis by auto
    qed
  qed
next
  case (3 fuel orc brd depth best alpha beta)
  then show ?case by simp
next
  case (4 fuel orc brd depth mv mvs best alpha beta)
  show ?case
  proof (intro impI)
    assume d: "1 \<le> depth" and f: "nat depth \<le> fuel"
    then have "0 \<le> depth - 1" "nat (depth - 1) < fuel" by auto
    with 4(1)[OF 4(3)] obtain r where
      r: "negamax fuel orc (push orc brd mv) (depth - 1) (- beta) (- alpha) = Some (r, push orc brd mv)"
      by blast
    have pp: "pop orc (push orc brd mv) = brd" using 4(3) by (simp add: pop_push_def)
    show "\<exists>r. negamax_moves fuel orc brd depth (mv # mvs) best alpha beta = Some (r, brd) \<and> best \<le> r"
      using 4(2)[OF r refl refl refl refl refl _ 4(3)] d f r pp
      by (auto simp: Let_def)
  qed
qed


lemma ab_step_cutoff:
  "alpha < beta \<Longrightarrow> ab_bounds r v (- beta) (- alpha) \<Longrightarrow> best \<le> W \<Longrightarrow>
   best' = (if - r > best then - r else best) \<Longrightarrow>
   beta \<le> (if best' > alpha then best' else alpha) \<Longrightarrow>
   ab_bounds best' (max (- v) W) alpha beta"
  unfolding ab_bounds_def max_def by (auto split: if_splits)

lemma ab_step_continue:
  "alpha < beta \<Longrightarrow> ab_bounds r v (- beta) (- alpha) \<Longrightarrow> best \<le> W \<Longrightarrow>
   best' = (if - r > best then - r else best) \<Longrightarrow>
   alpha' = (if best' > alpha then best' else alpha) \<Longrightarrow>
   \<not> beta \<le> alpha' \<Longrightarrow> best' \<le> r2 \<Longrightarrow>
   ab_bounds r2 (max (- r) W) alpha' beta \<Longrightarrow>
   ab_bounds r2 (max (- v) W) alpha beta"
  unfolding ab_bounds_def max_def by (auto split: if_splits)


lemma negamax_ab:
  "pop_push orc \<Longrightarrow> alpha < beta \<longrightarrow> 0 \<le> depth \<longrightarrow> nat depth < fuel \<longrightarrow>
     (\<exists>r. negamax fuel orc b depth alpha beta = Some (r, b) \<and>
          ab_bounds r (exhaustive_negamax orc b (nat depth)) alpha beta)"
  "pop_push orc \<Longrightarrow> alpha2 < beta2 \<longrightarrow> 1 \<le> depth \<longrightarrow> nat depth \<le> fuel' \<longrightarrow>
     (\<exists>r. negamax_moves fuel' orc b2 depth ms best alpha2 beta2 = Some (r, b2) \<and> best \<le> r \<and>
          ab_bounds r
            (fold (\<lambda>mv best. max best (- exhaustive_negamax orc (push orc b2 mv) (nat (depth - 1))))
               ms best) alpha2 beta2)"
proof (induction fuel orc b depth alpha beta and fuel' orc b2 depth ms best alpha2 beta2
    rule: negamax_negamax_moves.induct)
  case (1 orc brd depth alpha beta)
  then show ?case by simp
next
  case (2 fuel orc brd depth alpha beta)
  show ?case
  proof (intro impI)
    assume ab: "alpha < beta" and d: "0 \<le> depth" and f: "nat depth < Suc fuel"
    show "\<exists>r. negamax (Suc fuel) orc brd depth alpha beta = Some (r, brd) \<and>
            ab_bounds r (exhaustive_negamax orc brd (nat depth)) alpha beta"
    proof (cases "depth = 0 \<or> is_game_over orc brd")
      case True
      then have "negamax (Suc fuel) orc brd depth alpha beta = Some (evaluate orc brd, brd)" by auto
      moreover have "exhaustive_negamax orc brd (nat depth) = evaluate orc brd"
        using True by (cases "nat depth") auto
      ultimately show ?thesis by (simp add: ab_bounds_def)
    next
      case False
      have om: "ordered_moves orc brd = (sort_key (order_key orc brd) (legal_moves orc brd), brd)"
        using 2(2) by (rule ordered_moves_eq)
      from False d f have d1: "1 \<le> depth" "nat depth \<le> fuel" by auto
      then have nd: "nat depth = Suc (nat (depth - 1))" by simp
      have ex: "exhaustive_negamax orc brd (nat depth) =
          fold (\<lambda>mv best. max best (- exhaustive_negamax orc (push orc brd mv) (nat (depth - 1))))
            (sort_key (order_key orc brd) (legal_moves orc brd)) (- CHECKMATE_SCORE - 1)"
        using False by (simp add: nd om)
      from 2(1)[OF False om[symmetric] 2(2)] ab d1 False om ex show ?thesis by auto
    qed
  qed
next
  case (3 fuel orc brd depth best alpha beta)
  then show ?case by (simp add: ab_bounds_def)
next
  case (4 fuel orc brd depth mv mvs best alpha beta)
  show ?case
  proof (intro impI)
    assume ab: "alpha < beta" and d: "1 \<le> depth" and f: "nat depth \<le> fuel"
    let ?f = "\<lambda>mv best. max best (- exhaustive_negamax orc (push orc brd mv) (nat (depth - 1)))"
    let ?v = "exhaustive_negamax orc (push orc brd mv) (nat (depth - 1))"
    let ?W = "fold ?f mvs best"
    from ab d f have "- beta < - alpha" "0 \<le> depth - 1" "nat (depth - 1) < fuel" by auto
    with 4(1)[OF 4(3)] obtain r where
      r: "negamax fuel orc (push orc brd mv) (depth - 1) (- beta) (- alpha) = Some (r, push orc brd mv)"
      and rb: "ab_bounds r ?v (- beta) (- alpha)"
      by blast
    have pp: "pop orc (push orc brd mv) = brd" using 4(3) by (simp add: pop_push_def)
    have W: "best \<le> ?W" by (rule fold_max_ge)
    define best' where "best' = (if - r > best then - r else best)"
    define alpha' where "alpha' = (if best' > alpha then best' else alpha)"
    have bb: "best \<le> best'" by (simp add: best'_def)
    have goalv: "fold ?f (mv # mvs) best = max (- ?v) ?W"
      by (simp add: fold_max_max)
    have unf: "negamax_moves fuel orc brd depth (mv # mvs) best alpha beta =
        (if alpha' \<ge> beta then Some (best', brd)
         else negamax_moves fuel orc brd depth mvs best' alpha' beta)"
      using r pp by (simp add: Let_def best'_def alpha'_def)
    show "\<exists>r. negamax_moves fuel orc brd depth (mv # mvs) best alpha beta = Some (r, brd) \<and> best \<le> r \<and>
            ab_bounds r (fold ?f (mv # mvs) best) alpha beta"
    proof (cases "beta \<le> alpha'")
      case True
      have "ab_bounds best' (max (- ?v) ?W) alpha beta"
        using ab rb W best'_def True[unfolded alpha'_def] by (rule ab_step_cutoff)
      then show ?thesis using True unf bb goalv by simp
    next
      case False
      then have a'b: "alpha' < beta" by simp
      from 4(2)[OF r refl refl refl refl refl _ 4(3), of ] False pp a'b d f
      obtain r2 where r2: "negamax_moves fuel orc brd depth mvs best' alpha' beta = Some (r2, brd)"
        and b2: "best' \<le> r2" and rb2: "ab_bounds r2 (fold ?f mvs best') alpha' beta"
        unfolding best'_def alpha'_def by auto
      have "best' = max best (- r)" by (simp add: best'_def max_def)
      then have "fold ?f mvs best' = max (- r) ?W" by (simp add: fold_max_max)
      with rb2 have rb2': "ab_bounds r2 (max (- r) ?W) alpha' beta" by simp
      have "ab_bounds r2 (max (- ?v) ?W) alpha beta"
        using ab rb W best'_def alpha'_def False b2 rb2' by (rule ab_step_continue)
      then show ?thesis using False unf r2 b2 bb goalv by simp
    qed
  qed
qed


lemma search_root_moves_exhaustive:
  "pop_push orc \<Longrightarrow> 1 \<le> depth \<Longrightarrow> nat depth \<le> fuel \<Longrightarrow> - CHECKMATE_SCORE - 1 \<le> bs \<Longrightarrow>
   search_root_moves fuel orc b depth ms bm bs bs (CHECKMATE_SCORE + 1) =
     Some (fold (\<lambda>mv (best_move, best_score).
                   let score = - exhaustive_negamax orc (push orc b mv) (nat depth - 1)
                   in if score > best_score then (mv, score) else (best_move, best_score))
             ms (bm, bs), b)"
proof (induction ms arbitrary: bm bs)
  case Nil
  then show ?case by simp
next
  case (Cons mv mvs)
  let ?v = "exhaustive_negamax orc (push orc b mv) (nat depth - 1)"
  let ?beta = "CHECKMATE_SCORE + 1"
  have nd: "nat depth - 1 = nat (depth - 1)" using Cons.prems by simp
  have d': "0 \<le> depth - 1" "nat (depth - 1) < fuel" using Cons.prems by auto
  from negamax_frame(1)[OF Cons.prems(1), of "depth - 1" fuel "push orc b mv" "- ?beta" "- bs"] d'
  obtain r where r: "negamax fuel orc (push orc b mv) (depth - 1) (- ?beta) (- bs) = Some (r, push orc b mv)"
    and rl: "- CHECKMATE_SCORE - 1 \<le> r" by blast
  have vl: "- CHECKMATE_SCORE - 1 \<le> ?v" by (rule exhaustive_lower)
  have pp: "pop orc (push orc b mv) = b" using Cons.prems(1) by (simp add: pop_push_def)
  have same: "(- r > bs \<longrightarrow> r = ?v) \<and> (\<not> - r > bs \<longrightarrow> \<not> - ?v > bs)"
  proof (cases "bs < ?beta")
    case True
    then have "- ?beta < - bs" by simp
    with negamax_ab(1)[OF Cons.prems(1), of "- ?beta" "- bs" "depth - 1" fuel "push orc b mv"] d' r
    have "ab_bounds r (exhaustive_negamax orc (push orc b mv) (nat (depth - 1))) (- ?beta) (- bs)"
      by auto
    then show ?thesis using rl vl unfolding nd ab_bounds_def by auto
  next
    case False
    then show ?thesis using rl vl by auto
  qed
  show ?case
  proof (cases "- r > bs")
    case True
    with same have rv: "r = ?v" by simp
    have "- CHECKMATE_SCORE - 1 \<le> - r" using True Cons.prems(4) by simp
    from Cons.IH[OF Cons.prems(1,2,3) this, of mv] True r pp rv
    show ?thesis by (simp add: Let_def)
  next
    case False
    with same have "\<not> - ?v > bs" by simp
    with Cons.IH[OF Cons.prems, of bm] False r pp
    show ?thesis by (simp add: Let_def)
  qed
qed

lemma search_root_scored_exhaustive:
  assumes "pop_push orc" and "1 \<le> depth" and "nat depth \<le> fuel"
  shows "search_root_scored fuel orc b depth = Some (exhaustive_root orc b (nat depth), b)"
proof -
  have om: "ordered_moves orc b = (sort_key (order_key orc b) (legal_moves orc b), b)"
    using assms(1) by (rule ordered_moves_eq)
  show ?thesis
  proof (cases "sort_key (order_key orc b) (legal_moves orc b)")
    case Nil
    then show ?thesis by (simp add: search_root_scored_def exhaustive_root_def om)
  next
    case (Cons m0 rest)
    have "search_root_moves fuel orc b depth (m0 # rest) m0 (- CHECKMATE_SCORE - 1)
            (- CHECKMATE_SCORE - 1) (CHECKMATE_SCORE + 1) =
          Some (fold (\<lambda>mv (best_move, best_score).
                   let score = - exhaustive_negamax orc (push orc b mv) (nat depth - 1)
                   in if score > best_score then (mv, score) else (best_move, best_score))
             (m0 # rest) (m0, - CHECKMATE_SCORE - 1), b)"
      using assms by (intro search_root_moves_exhaustive) simp_all
    then show ?thesis
      by (simp add: search_root_scored_def exhaustive_root_def om Cons)
  qed
qed

text \<open>
  C1.  With an oracle whose \<open>pop\<close> undoes \<open>push\<close>, for every position and every depth of at
  least 1, the root search with alpha-beta pruning computes the same move and the same
  score as the unpruned exhaustive negamax search over the same move ordering (and the
  same error when there is no legal move), and hands the board back as it found it.
\<close>

theorem pruning_preserves_result:
  assumes "pop_push orc" and "1 \<le> depth" and "nat depth \<le> fuel"
  shows "search_root_scored fuel orc b depth = Some (exhaustive_root orc b (nat depth), b)"
  using assms by (rule search_root_scored_exhaustive)

theorem pruning_preserves_result_witness:
  "pop_push fifty \<and> (1::int) \<le> 2 \<and> nat 2 \<le> (2::nat) \<and>
   search_root_scored 2 fifty [] 2 = Some (exhaustive_root fifty [] (nat 2), [])"
  using pruning_preserves_result[of fifty 2 2 "[]"] pop_push_scripted[of fifty_script]
  by (simp add: fifty_def)

text \<open>
  The pruning is real: on \<open>cutoff_tree\<close> the search below the second root move stops after
  the first reply and returns 0, a lower bound of the exact value 880, and the root
  result is that of the exhaustive search all the same.
\<close>

lemma evaluate_sum:
  "evaluate orc brd =
     (if is_checkmate orc brd then - CHECKMATE_SCORE
      else if is_stalemate orc brd \<or> is_insufficient_material orc brd \<or> can_claim_draw orc brd
      then 0
      else if turn orc brd = Black then - (\<Sum>sq<64. square_term orc brd sq)
      else (\<Sum>sq<64. square_term orc brd sq))"
  by (simp add: evaluate_def SQUARES_def fold_evaluate_square Let_def)

lemma sum_single:
  "k < (n::nat) \<Longrightarrow> (\<And>i. i \<noteq> k \<Longrightarrow> f i = 0) \<Longrightarrow> (\<Sum>i<n. f i) = (f k :: int)"
proof -
  assume k: "k < n" and z: "\<And>i. i \<noteq> k \<Longrightarrow> f i = 0"
  have "(\<Sum>i<n. f i) = (\<Sum>i\<in>{k}. f i)"
  proof (rule sum.mono_neutral_right)
    show "finite {..<n}" by simp
    show "{k} \<subseteq> {..<n}" using k by simp
    show "\<forall>i\<in>{..<n} - {k}. f i = 0" using z by simp
  qed
  then show ?thesis by simp
qed

lemma cutoff_leaf_values:
  "evaluate cutoff_tree [mk_move 60 61, mk_move 0 1] = 495"
  "evaluate cutoff_tree [mk_move 60 62, mk_move 0 1] = 105"
  "evaluate cutoff_tree [mk_move 60 61, mk_move 0 2] = 0"
  "evaluate cutoff_tree [mk_move 60 62, mk_move 0 2] = - 880"
proof -
  have a: "(\<Sum>sq<64. square_term cutoff_tree [mk_move 60 61, mk_move 0 1] sq) = 495"
    by (subst sum_single[of 8])
       (simp_all add: square_term_def cutoff_tree_def scripted_def cutoff_script_def mk_move_def
          mk_piece_def ROOK_TABLE_def)
  have b: "(\<Sum>sq<64. square_term cutoff_tree [mk_move 60 62, mk_move 0 1] sq) = 105"
    by (subst sum_single[of 8])
       (simp_all add: square_term_def cutoff_tree_def scripted_def cutoff_script_def mk_move_def
          mk_piece_def PAWN_TABLE_def)
  have c: "(\<Sum>sq<64. square_term cutoff_tree [mk_move 60 61, mk_move 0 2] sq) = 0"
    by (simp add: square_term_def cutoff_tree_def scripted_def cutoff_script_def mk_move_def)
  have d: "(\<Sum>sq<64. square_term cutoff_tree [mk_move 60 62, mk_move 0 2] sq) = - 880"
    by (subst sum_single[of 0])
       (simp_all add: square_term_def cutoff_tree_def scripted_def cutoff_script_def mk_move_def
          mk_piece_def QUEEN_TABLE_def)
  show "evaluate cutoff_tree [mk_move 60 61, mk_move 0 1] = 495"
    unfolding evaluate_sum a by (simp add: cutoff_tree_def scripted_def cutoff_script_def)
  show "evaluate cutoff_tree [mk_move 60 62, mk_move 0 1] = 105"
    unfolding evaluate_sum b by (simp add: cutoff_tree_def scripted_def cutoff_script_def)
  show "evaluate cutoff_tree [mk_move 60 61, mk_move 0 2] = 0"
    unfolding evaluate_sum c by (simp add: cutoff_tree_def scripted_def cutoff_script_def)
  show "evaluate cutoff_tree [mk_move 60 62, mk_move 0 2] = - 880"
    unfolding evaluate_sum d by (simp add: cutoff_tree_def scripted_def cutoff_script_def)
qed

lemma cutoff_ordered:
  "ordered_moves cutoff_tree [] = ([mk_move 0 1, mk_move 0 2], [])"
  "ordered_moves cutoff_tree [m] = ([mk_move 60 61, mk_move 60 62], [m])"
  by (simp_all add: ordered_moves_def cutoff_tree_def scripted_def cutoff_script_def
      move_order_key_def Let_def mk_move_def)

lemma cutoff_ops:
  "push cutoff_tree b m = m # b" "pop cutoff_tree (m # b) = b" "\<not> is_game_over cutoff_tree b"
  by (simp_all add: cutoff_tree_def scripted_def cutoff_script_def)

lemma pruning_cuts_off:
  "negamax (Suc (Suc 0)) cutoff_tree [mk_move 0 2] 1 (- 100001) (- 105) = Some (0, [mk_move 0 2])"
  "exhaustive_negamax cutoff_tree [mk_move 0 2] (Suc 0) = 880"
  "search_root_scored (Suc (Suc 0)) cutoff_tree [] 2 = Some (Inr (mk_move 0 1, 105), [])"
  "exhaustive_root cutoff_tree [] (Suc (Suc 0)) = Inr (mk_move 0 1, 105)"
  by (simp_all add: search_root_scored_def exhaustive_root_def cutoff_ordered cutoff_ops
      cutoff_leaf_values CHECKMATE_SCORE_def Let_def del: One_nat_def)

section \<open>Root search: legal moves and errors\<close>

lemma search_root_moves_member:
  "search_root_moves fuel orc b depth ms bm bs alpha beta = Some ((m, s), b') \<Longrightarrow>
   m = bm \<or> m \<in> set ms"
proof (induction ms arbitrary: b bm bs alpha)
  case Nil
  then show ?case by simp
next
  case (Cons x xs)
  then show ?case
    by (fastforce simp: Let_def split: option.splits prod.splits if_splits)
qed

lemma set_ordered_moves: "set (fst (ordered_moves orc brd)) = set (legal_moves orc brd)"
  using mset_ordered_moves[of orc brd] by (metis set_mset_mset)

lemma search_root_scored_legal:
  assumes "legal_moves orc brd \<noteq> []" and "1 \<le> depth" and "nat depth \<le> fuel"
  shows "\<exists>m s b'. search_root_scored fuel orc brd depth = Some (Inr (m, s), b') \<and>
                  m \<in> set (legal_moves orc brd)"
proof -
  obtain ms b1 where om: "ordered_moves orc brd = (ms, b1)" by (cases "ordered_moves orc brd")
  have sm: "set ms = set (legal_moves orc brd)" using set_ordered_moves[of orc brd] om by simp
  with assms(1) obtain m0 rest where ms: "ms = m0 # rest" by (cases ms) auto
  from search_root_moves_returns[OF assms(2,3), of orc b1 ms m0 "- CHECKMATE_SCORE - 1"
      "- CHECKMATE_SCORE - 1" "CHECKMATE_SCORE + 1"]
  obtain res b' where r: "search_root_moves fuel orc b1 depth ms m0 (- CHECKMATE_SCORE - 1)
      (- CHECKMATE_SCORE - 1) (CHECKMATE_SCORE + 1) = Some (res, b')" by (elim exE)
  obtain m s where res: "res = (m, s)" by (cases res)
  from search_root_moves_member[OF r[unfolded res]] ms have "m \<in> set ms" by auto
  with sm r res ms om show ?thesis by (simp add: search_root_scored_def)
qed

lemma search_root_legal:
  assumes "legal_moves orc brd \<noteq> []" and "1 \<le> depth" and "nat depth \<le> fuel"
  shows "\<exists>m b'. search_root fuel orc brd depth = Some (Inr m, b') \<and> m \<in> set (legal_moves orc brd)"
proof -
  from search_root_scored_legal[OF assms] obtain m s b' where
    "search_root_scored fuel orc brd depth = Some (Inr (m, s), b')" "m \<in> set (legal_moves orc brd)"
    by blast
  then show ?thesis by (simp add: search_root_def)
qed

lemma ordered_moves_Nil: "legal_moves orc brd = [] \<Longrightarrow> ordered_moves orc brd = ([], brd)"
  by (simp add: ordered_moves_def)

lemma search_root_no_moves:
  "legal_moves orc brd = [] \<Longrightarrow> search_root fuel orc brd depth = Some (Inl NoLegalMoves, brd)"
  by (simp add: search_root_def search_root_scored_def ordered_moves_Nil)

lemma search_root_no_error:
  assumes "legal_moves orc brd \<noteq> []"
  shows "search_root fuel orc brd depth \<noteq> Some (Inl e, b')"
proof -
  obtain ms b1 where om: "ordered_moves orc brd = (ms, b1)" by (cases "ordered_moves orc brd")
  have "set ms = set (legal_moves orc brd)" using set_ordered_moves[of orc brd] om by simp
  with assms obtain m0 rest where ms: "ms = m0 # rest" by (cases ms) auto
  show ?thesis
    by (auto simp: search_root_def search_root_scored_def om ms split: option.splits prod.splits sum.splits)
qed

lemma search_root_needs_negamax:
  "legal_moves orc brd \<noteq> [] \<Longrightarrow> search_root 0 orc brd depth = None"
proof -
  assume ne: "legal_moves orc brd \<noteq> []"
  obtain ms b1 where om: "ordered_moves orc brd = (ms, b1)" by (cases "ordered_moves orc brd")
  have "set ms = set (legal_moves orc brd)" using set_ordered_moves[of orc brd] om by simp
  with ne obtain m0 rest where ms: "ms = m0 # rest" by (cases ms) auto
  show ?thesis by (simp add: search_root_def search_root_scored_def om ms)
qed

lemma ordered_moves_frame: "pop_push orc \<Longrightarrow> snd (ordered_moves orc brd) = brd"
  by (simp add: ordered_moves_eq)

lemma search_root_frame:
  assumes "pop_push orc" and "1 \<le> depth" and "nat depth \<le> fuel"
  shows "\<exists>res. search_root fuel orc brd depth = Some (res, brd)"
  using search_root_scored_exhaustive[OF assms, of brd]
  by (cases "exhaustive_root orc brd (nat depth)") (auto simp: search_root_def)

section \<open>Backpropagation\<close>

lemma backpropagate_None: "backpropagate orc t None r = Some t"
  by (subst backpropagate.simps) simp

lemma backpropagate_Some:
  "backpropagate orc t (Some c) r = backpropagate orc (t[c := visit orc r (t ! c)]) (parent (t ! c)) r"
  by (subst backpropagate.simps) (simp add: visit_def)

lemma visit_fields:
  "board (visit orc r nd) = board nd" "parent (visit orc r nd) = parent nd"
  "move (visit orc r nd) = move nd" "children (visit orc r nd) = children nd"
  "untried_moves (visit orc r nd) = untried_moves nd" "visits (visit orc r nd) = visits nd + 1"
  by (simp_all add: visit_def)

lemma on_path_le:
  assumes "parents_below t" and "c < length t" and "on_path t c i"
  shows "i \<le> c"
  using assms(3)
proof (induction rule: on_path.induct)
  case start
  then show ?case by simp
next
  case (step i p)
  then have "i < length t" using assms(2) by simp
  with assms(1) step(2) have "p < i" by (simp add: parents_below_def)
  with step show ?case by simp
qed

lemma on_path_parents_eq:
  assumes "\<And>i. parent (t' ! i) = parent (t ! i)"
  shows "on_path t' c i \<longleftrightarrow> on_path t c i"
proof
  assume "on_path t' c i"
  then show "on_path t c i"
    by (induction rule: on_path.induct) (auto intro: on_path.intros simp: assms)
next
  assume "on_path t c i"
  then show "on_path t' c i"
    by (induction rule: on_path.induct) (auto intro: on_path.intros simp: assms[symmetric])
qed

lemma on_path_from_parent:
  assumes "parent (t ! c) = Some p"
  shows "on_path t c i \<longleftrightarrow> i = c \<or> on_path t p i"
proof
  assume "on_path t c i"
  then show "i = c \<or> on_path t p i"
  proof (induction rule: on_path.induct)
    case start
    then show ?case by simp
  next
    case (step i p')
    then show ?case using assms by (auto intro: on_path.intros)
  qed
next
  assume "i = c \<or> on_path t p i"
  then show "on_path t c i"
  proof
    assume "i = c" then show ?thesis by (simp add: on_path.start)
  next
    assume "on_path t p i"
    then show ?thesis
      by (induction rule: on_path.induct) (auto intro: on_path.intros assms)
  qed
qed

lemma on_path_no_parent:
  assumes "parent (t ! c) = None"
  shows "on_path t c i \<longleftrightarrow> i = c"
proof
  assume "on_path t c i"
  then show "i = c" by (induction rule: on_path.induct) (auto simp: assms)
qed (simp add: on_path.start)

lemma backpropagate_path:
  "parents_below t \<Longrightarrow> c < length t \<Longrightarrow>
   \<exists>t'. backpropagate orc t (Some c) r = Some t' \<and> length t' = length t \<and>
        (\<forall>i<length t. t' ! i = (if on_path t c i then visit orc r (t ! i) else t ! i))"
proof (induction c arbitrary: t rule: less_induct)
  case (less c)
  let ?t1 = "t[c := visit orc r (t ! c)]"
  have par: "parent (?t1 ! i) = parent (t ! i)" for i
    using less.prems(2) by (cases "i = c") (simp_all add: visit_fields)
  show ?case
  proof (cases "parent (t ! c)")
    case None
    then have "backpropagate orc t (Some c) r = Some ?t1"
      by (simp add: backpropagate_Some backpropagate_None)
    then show ?thesis using less.prems(2) None
      by (auto simp: on_path_no_parent nth_list_update)
  next
    case (Some p)
    then have pc: "p < c" using less.prems by (simp add: parents_below_def)
    have pb1: "parents_below ?t1" using less.prems(1) by (simp add: parents_below_def par)
    have pl: "p < length ?t1" using pc less.prems(2) by simp
    from less.IH[OF pc pb1 pl] obtain t' where
      bp: "backpropagate orc ?t1 (Some p) r = Some t'" and len: "length t' = length ?t1"
      and nth: "\<forall>i<length ?t1. t' ! i = (if on_path ?t1 p i then visit orc r (?t1 ! i) else ?t1 ! i)"
      by blast
    have op: "on_path ?t1 p i \<longleftrightarrow> on_path t p i" for i
      by (rule on_path_parents_eq) (rule par)
    have notc: "\<not> on_path t p c"
      using on_path_le[OF less.prems(1), of p c] pc less.prems(2) by auto
    have "backpropagate orc t (Some c) r = Some t'"
      using bp Some by (simp add: backpropagate_Some)
    moreover have "length t' = length t" using len by simp
    moreover have "\<forall>i<length t. t' ! i = (if on_path t c i then visit orc r (t ! i) else t ! i)"
    proof (intro allI impI)
      fix i assume i: "i < length t"
      show "t' ! i = (if on_path t c i then visit orc r (t ! i) else t ! i)"
      proof (cases "i = c")
        case True
        then show ?thesis using nth i notc by (simp add: op on_path.start)
      next
        case False
        then show ?thesis using nth i by (simp add: op on_path_from_parent[OF Some])
      qed
    qed
    ultimately show ?thesis by blast
  qed
qed

text \<open>
  C5, as the code has it.  In a tree whose parent references point to earlier nodes,
  backpropagation from a node returns, and every node on the path from that node to the
  root has its visit count incremented by one and the White-perspective result added to
  its value when Black is to move at the node (the node was reached by a White move),
  subtracted when White is to move at the node (it was reached by a Black move, or it is
  the root of a search for White); nothing else changes.
\<close>

theorem backpropagate_updates_path:
  assumes "parents_below t" and "c < length t"
  shows "\<exists>t'. backpropagate orc t (Some c) result_white = Some t' \<and> length t' = length t \<and>
           (\<forall>i<length t.
              (on_path t c i \<longrightarrow>
                 visits (t' ! i) = visits (t ! i) + 1 \<and>
                 total_value (t' ! i) =
                   (if turn orc (board (t ! i)) = Black then total_value (t ! i) + result_white
                    else total_value (t ! i) - result_white) \<and>
                 board (t' ! i) = board (t ! i) \<and> parent (t' ! i) = parent (t ! i) \<and>
                 move (t' ! i) = move (t ! i) \<and> children (t' ! i) = children (t ! i) \<and>
                 untried_moves (t' ! i) = untried_moves (t ! i)) \<and>
              (\<not> on_path t c i \<longrightarrow> t' ! i = t ! i))"
proof -
  from backpropagate_path[OF assms, of orc result_white] obtain t' where
    bp: "backpropagate orc t (Some c) result_white = Some t'" and len: "length t' = length t"
    and nth: "\<forall>i<length t. t' ! i = (if on_path t c i then visit orc result_white (t ! i) else t ! i)"
    by blast
  have "\<forall>i<length t.
              (on_path t c i \<longrightarrow>
                 visits (t' ! i) = visits (t ! i) + 1 \<and>
                 total_value (t' ! i) =
                   (if turn orc (board (t ! i)) = Black then total_value (t ! i) + result_white
                    else total_value (t ! i) - result_white) \<and>
                 board (t' ! i) = board (t ! i) \<and> parent (t' ! i) = parent (t ! i) \<and>
                 move (t' ! i) = move (t ! i) \<and> children (t' ! i) = children (t ! i) \<and>
                 untried_moves (t' ! i) = untried_moves (t ! i)) \<and>
              (\<not> on_path t c i \<longrightarrow> t' ! i = t ! i)"
  proof (intro allI impI)
    fix i assume "i < length t"
    with nth have "t' ! i = (if on_path t c i then visit orc result_white (t ! i) else t ! i)" by simp
    then show "(on_path t c i \<longrightarrow>
                 visits (t' ! i) = visits (t ! i) + 1 \<and>
                 total_value (t' ! i) =
                   (if turn orc (board (t ! i)) = Black then total_value (t ! i) + result_white
                    else total_value (t ! i) - result_white) \<and>
                 board (t' ! i) = board (t ! i) \<and> parent (t' ! i) = parent (t ! i) \<and>
                 move (t' ! i) = move (t ! i) \<and> children (t' ! i) = children (t ! i) \<and>
                 untried_moves (t' ! i) = untried_moves (t ! i)) \<and>
              (\<not> on_path t c i \<longrightarrow> t' ! i = t ! i)"
      by (simp add: visit_def)
  qed
  with bp len show ?thesis by blast
qed

lemma parents_below_fifty_tree: "parents_below fifty_tree"
  by (auto simp: parents_below_def fifty_tree_def less_Suc_eq)

lemma on_path_fifty_tree: "on_path fifty_tree 1 0"
proof -
  have "on_path fifty_tree 1 1" by (rule on_path.start)
  moreover have "parent (fifty_tree ! 1) = Some 0" by (simp add: fifty_tree_def)
  ultimately show ?thesis by (rule on_path.step)
qed

theorem backpropagate_updates_path_witness:
  "parents_below fifty_tree \<and> 1 < length fifty_tree \<and> on_path fifty_tree 1 0 \<and>
   (\<exists>t'. backpropagate fifty fifty_tree (Some 1) 1 = Some t' \<and>
         visits (t' ! 0) = visits (fifty_tree ! 0) + 1 \<and>
         total_value (t' ! 0) =
           (if turn fifty (board (fifty_tree ! 0)) = Black then total_value (fifty_tree ! 0) + 1
            else total_value (fifty_tree ! 0) - 1))"
proof -
  have l: "1 < length fifty_tree" by (simp add: fifty_tree_def)
  have l0: "0 < length fifty_tree" by (simp add: fifty_tree_def)
  from backpropagate_updates_path[OF parents_below_fifty_tree l, of fifty 1]
  obtain t' where bp: "backpropagate fifty fifty_tree (Some 1) 1 = Some t'"
    and every: "\<forall>i<length fifty_tree.
              (on_path fifty_tree 1 i \<longrightarrow>
                 visits (t' ! i) = visits (fifty_tree ! i) + 1 \<and>
                 total_value (t' ! i) =
                   (if turn fifty (board (fifty_tree ! i)) = Black then total_value (fifty_tree ! i) + 1
                    else total_value (fifty_tree ! i) - 1) \<and>
                 board (t' ! i) = board (fifty_tree ! i) \<and> parent (t' ! i) = parent (fifty_tree ! i) \<and>
                 move (t' ! i) = move (fifty_tree ! i) \<and> children (t' ! i) = children (fifty_tree ! i) \<and>
                 untried_moves (t' ! i) = untried_moves (fifty_tree ! i)) \<and>
              (\<not> on_path fifty_tree 1 i \<longrightarrow> t' ! i = fifty_tree ! i)"
    by blast
  from every[rule_format, OF l0] on_path_fifty_tree
  have "visits (t' ! 0) = visits (fifty_tree ! 0) + 1 \<and>
        total_value (t' ! 0) =
           (if turn fifty (board (fifty_tree ! 0)) = Black then total_value (fifty_tree ! 0) + 1
            else total_value (fifty_tree ! 0) - 1)"
    by blast
  with bp parents_below_fifty_tree l on_path_fifty_tree show ?thesis by blast
qed

text \<open>
  The signs are the other way round from those in the specification: in \<open>fifty_tree\<close> node 1 was reached by
  White's move Kb1 (Black is to move there), and backpropagating the result 1 adds 1 to its
  value; the root, where White is to move, has 1 subtracted.
\<close>

theorem backpropagate_sign_counterexample:
  "turn fifty (board (fifty_tree ! 1)) = Black \<and> move (fifty_tree ! 1) = Some (mk_move 0 1) \<and>
   turn fifty (board (fifty_tree ! 0)) = White \<and>
   backpropagate fifty fifty_tree (Some 1) 1 =
     Some [\<lparr>board = [], parent = None, move = None, children = [1],
            untried_moves = [mk_move 0 8], visits = 1, total_value = - 1\<rparr>,
           \<lparr>board = [mk_move 0 1], parent = Some 0, move = Some (mk_move 0 1), children = [],
            untried_moves = [], visits = 1, total_value = 1\<rparr>]"
proof -
  have t1: "turn fifty (board (fifty_tree ! 1)) = Black"
    by (simp add: fifty_tree_def fifty_def scripted_def fifty_script_def)
  have t0: "turn fifty (board (fifty_tree ! 0)) = White"
    by (simp add: fifty_tree_def fifty_def scripted_def fifty_script_def)
  have p1: "parent (fifty_tree ! 1) = Some 0" by (simp add: fifty_tree_def)
  have s1: "backpropagate fifty fifty_tree (Some 1) 1 =
      backpropagate fifty (fifty_tree[1 := visit fifty 1 (fifty_tree ! 1)]) (Some 0) 1"
    by (simp only: backpropagate_Some p1)
  let ?u = "fifty_tree[1 := visit fifty 1 (fifty_tree ! 1)]"
  have p0: "parent (?u ! 0) = None" by (simp add: fifty_tree_def)
  have s2: "backpropagate fifty ?u (Some 0) 1 = Some (?u[0 := visit fifty 1 (?u ! 0)])"
    by (simp only: backpropagate_Some p0 backpropagate_None)
  have u0: "?u ! 0 = fifty_tree ! 0" by (simp add: fifty_tree_def)
  have "?u[0 := visit fifty 1 (?u ! 0)] =
     [\<lparr>board = [], parent = None, move = None, children = [1],
            untried_moves = [mk_move 0 8], visits = 1, total_value = - 1\<rparr>,
           \<lparr>board = [mk_move 0 1], parent = Some 0, move = Some (mk_move 0 1), children = [],
            untried_moves = [], visits = 1, total_value = 1\<rparr>]"
    using t0 t1 unfolding u0 by (simp add: fifty_tree_def visit_def)
  with s1 s2 t0 t1 show ?thesis by (simp add: fifty_tree_def)
qed

section \<open>The search tree: invariant\<close>

lemma randbelow_less: "0 < n \<Longrightarrow> fst (randbelow n g) < n"
  by (simp add: randbelow_def)

lemma shuffle_loop_mset: "k < length xs \<Longrightarrow> mset (fst (shuffle_loop k xs g)) = mset xs"
proof (induction k arbitrary: xs g)
  case 0
  then show ?case by simp
next
  case (Suc k)
  let ?j = "g 0 mod (Suc k + 1)"
  have "?j < Suc k + 1" by (rule mod_less_divisor) simp
  then have j: "?j < length xs" using Suc.prems by linarith
  have "mset (xs[Suc k := xs ! ?j, ?j := xs ! Suc k]) = mset xs"
    using Suc.prems j by (simp add: mset_swap)
  moreover have "k < length (xs[Suc k := xs ! ?j, ?j := xs ! Suc k])" using Suc.prems by simp
  ultimately show ?case using Suc.IH[of "xs[Suc k := xs ! ?j, ?j := xs ! Suc k]"]
    by (simp add: randbelow_def Let_def)
qed

lemma shuffle_mset: "mset (fst (shuffle xs g)) = mset xs"
proof (cases xs)
  case Nil
  then show ?thesis by (simp add: shuffle_def)
next
  case (Cons x xs')
  then show ?thesis using shuffle_loop_mset[of "length xs - 1" xs g] by (simp add: shuffle_def)
qed

lemma shuffle_set: "set (fst (shuffle xs g)) = set xs"
  using shuffle_mset[of xs g] by (metis set_mset_mset)

lemma shuffle_Nil_iff: "fst (shuffle xs g) = [] \<longleftrightarrow> xs = []"
  using shuffle_set[of xs g] by (metis set_empty)

lemma choice_nonempty:
  "xs \<noteq> [] \<Longrightarrow> \<exists>x g'. choice xs g = (Inr x, g') \<and> x \<in> set xs"
  by (simp add: choice_def randbelow_def)

lemma choice_index:
  "xs \<noteq> [] \<Longrightarrow> fst (choice xs g) = Inr (xs ! (g 0 mod length xs))"
  by (simp add: choice_def randbelow_def)

lemma max_key_loop_member:
  "\<forall>x\<in>set xs. \<exists>v. key x = Inr v \<Longrightarrow>
   \<exists>c. max_key_loop gt key xs best bv = Inr c \<and> (c = best \<or> c \<in> set xs)"
proof (induction xs arbitrary: best bv)
  case Nil
  then show ?case by simp
next
  case (Cons x xs)
  then obtain v where v: "key x = Inr v" by auto
  from Cons.prems have rest: "\<forall>x\<in>set xs. \<exists>v. key x = Inr v" by simp
  show ?case
  proof (cases "gt v bv")
    case True
    from Cons.IH[OF rest, of x v] True v show ?thesis by auto
  next
    case False
    from Cons.IH[OF rest, of best bv] False v show ?thesis by auto
  qed
qed

lemma max_key_member:
  "xs \<noteq> [] \<Longrightarrow> \<forall>x\<in>set xs. \<exists>v. key x = Inr v \<Longrightarrow> \<exists>c. max_key gt key xs = Inr c \<and> c \<in> set xs"
proof -
  assume ne: "xs \<noteq> []" and k: "\<forall>x\<in>set xs. \<exists>v. key x = Inr v"
  then obtain x rest where xs: "xs = x # rest" by (cases xs) auto
  with k obtain v where v: "key x = Inr v" by auto
  from k xs have "\<forall>y\<in>set rest. \<exists>v. key y = Inr v" by simp
  from max_key_loop_member[OF this, of gt x v] xs v show ?thesis
    by (auto simp: max_key_def)
qed

lemma ucb1_defined:
  "0 \<le> visits nd \<Longrightarrow> visits nd \<le> pv \<Longrightarrow> \<exists>v. ucb1 nd pv = Inr v"
proof (cases "visits nd = 0")
  case True
  then show ?thesis by (simp add: ucb1_def)
next
  case False
  assume "0 \<le> visits nd" "visits nd \<le> pv"
  with False have v: "1 \<le> visits nd" and p: "1 \<le> pv" by auto
  then have "0 \<le> ln (real_of_int pv)" by simp
  moreover have "0 < real_of_int (visits nd)" using v by simp
  ultimately have "0 \<le> ln (real_of_int pv) / real_of_int (visits nd)" by simp
  then show ?thesis using False p by (simp add: ucb1_def Let_def not_less[symmetric])
qed

lemma rollout_loop_ok:
  "moves_unless_over orc \<Longrightarrow> \<exists>sim g'. rollout_loop orc brd depth g = (Inr sim, g')"
proof (induction orc brd depth g rule: rollout_loop.induct)
  case (1 orc sim depth g)
  show ?case
  proof (cases "\<not> is_game_over orc sim \<and> depth < ROLLOUT_DEPTH")
    case True
    with 1(2) have "legal_moves orc sim \<noteq> []" by (simp add: moves_unless_over_def)
    from choice_nonempty[OF this, of g] obtain x g' where c: "choice (legal_moves orc sim) g = (Inr x, g')"
      by blast
    from 1(1)[OF True c[symmetric] refl 1(2)] True c show ?thesis
      by (subst rollout_loop.simps) simp
  next
    case False
    then show ?thesis by (subst rollout_loop.simps) auto
  qed
qed

lemma rollout_ok:
  "moves_unless_over orc \<Longrightarrow> \<exists>r g'. rollout orc brd g = (Inr r, g')"
proof -
  assume "moves_unless_over orc"
  from rollout_loop_ok[OF this, of brd 0 g] obtain sim g' where
    "rollout_loop orc brd 0 g = (Inr sim, g')" by blast
  then show ?thesis by (simp add: rollout_def Let_def)
qed

lemma tree_inv_node: "tree_inv orc t \<Longrightarrow> i < length t \<Longrightarrow> node_ok orc t i"
  by (simp add: tree_inv_def)

lemma tree_inv_child:
  "tree_inv orc t \<Longrightarrow> i < length t \<Longrightarrow> c \<in> set (children (t ! i)) \<Longrightarrow>
   i < c \<and> c < length t \<and> parent (t ! c) = Some i"
  unfolding tree_inv_def node_ok_def by blast

lemma tree_inv_parent:
  "tree_inv orc t \<Longrightarrow> i < length t \<Longrightarrow> parent (t ! i) = Some p \<Longrightarrow>
   p < i \<and> i \<in> set (children (t ! p)) \<and> visits (t ! i) \<le> visits (t ! p)"
proof -
  assume inv: "tree_inv orc t" and i: "i < length t" and p: "parent (t ! i) = Some p"
  have "parent (t ! 0) = None" using inv by (simp add: tree_inv_def)
  with p have "0 < i" by (cases "i = 0") simp_all
  moreover have "node_ok orc t i" using inv i by (rule tree_inv_node)
  ultimately have "\<exists>p'<i. parent (t ! i) = Some p' \<and> i \<in> set (children (t ! p')) \<and>
                      visits (t ! i) \<le> visits (t ! p')"
    unfolding node_ok_def by blast
  with p show ?thesis by auto
qed

lemma tree_inv_parents_below: "tree_inv orc t \<Longrightarrow> parents_below t"
  unfolding parents_below_def
proof (intro allI impI)
  fix i p assume "tree_inv orc t" "i < length t" "parent (t ! i) = Some p"
  then show "p < i" using tree_inv_parent[of orc t i p] by simp
qed

lemma tree_inv_visits_nonneg: "tree_inv orc t \<Longrightarrow> i < length t \<Longrightarrow> 0 \<le> visits (t ! i)"
  unfolding tree_inv_def node_ok_def by blast


lemma tree_inv_has_moves:
  "tree_inv orc t \<Longrightarrow> i < length t \<Longrightarrow> \<not> is_game_over orc (board (t ! i)) \<Longrightarrow>
   untried_moves (t ! i) \<noteq> [] \<or> children (t ! i) \<noteq> []"
  unfolding tree_inv_def node_ok_def by blast

lemma tree_inv_distinct: "tree_inv orc t \<Longrightarrow> i < length t \<Longrightarrow> distinct (children (t ! i))"
  unfolding tree_inv_def node_ok_def by blast

lemma tree_inv_untried:
  "tree_inv orc t \<Longrightarrow> i < length t \<Longrightarrow>
   set (untried_moves (t ! i)) \<subseteq> set (legal_moves orc (board (t ! i)))"
  unfolding tree_inv_def node_ok_def by blast

lemma tree_inv_root: "tree_inv orc t \<Longrightarrow> 0 < length t \<and> parent (t ! 0) = None"
  unfolding tree_inv_def by simp

lemma tree_inv_move:
  "tree_inv orc t \<Longrightarrow> i < length t \<Longrightarrow> parent (t ! i) = Some p \<Longrightarrow>
   \<exists>m. move (t ! i) = Some m \<and> m \<in> set (legal_moves orc (board (t ! p)))"
proof -
  assume inv: "tree_inv orc t" and i: "i < length t" and p: "parent (t ! i) = Some p"
  have "parent (t ! 0) = None" using inv by (simp add: tree_inv_def)
  with p have "0 < i" by (cases "i = 0") simp_all
  moreover have "node_ok orc t i" using inv i by (rule tree_inv_node)
  ultimately have "\<exists>p'<i. parent (t ! i) = Some p' \<and>
      (\<exists>m. move (t ! i) = Some m \<and> m \<in> set (legal_moves orc (board (t ! p'))))"
    unfolding node_ok_def by blast
  with p show ?thesis by auto
qed

lemma select_unfold:
  "select orc t n =
     (if \<not> is_terminal orc (t ! n) \<and> is_fully_expanded (t ! n)
      then (case max_key ucb_gt (\<lambda>c. ucb1 (t ! c) (visits (t ! n))) (children (t ! n)) of
              Inl e \<Rightarrow> Some (Inl e)
            | Inr c \<Rightarrow> select orc t c)
      else Some (Inr n))"
  by (rule select.simps)

lemma select_total:
  "tree_inv orc t \<Longrightarrow> n < length t \<Longrightarrow>
   \<exists>m. select orc t n = Some (Inr m) \<and> m < length t \<and> n \<le> m \<and>
       (is_terminal orc (t ! m) \<or> \<not> is_fully_expanded (t ! m))"
proof (induction "length t - n" arbitrary: n rule: less_induct)
  case less
  show ?case
  proof (cases "\<not> is_terminal orc (t ! n) \<and> is_fully_expanded (t ! n)")
    case False
    then have "select orc t n = Some (Inr n)" by (subst select_unfold) auto
    with False less.prems show ?thesis by auto
  next
    case True
    from True tree_inv_has_moves[OF less.prems, unfolded is_terminal_def[symmetric]]
    have ne: "children (t ! n) \<noteq> []"
      by (simp add: is_terminal_def is_fully_expanded_def)
    have keys: "\<forall>c\<in>set (children (t ! n)). \<exists>v. ucb1 (t ! c) (visits (t ! n)) = Inr v"
    proof
      fix c assume c: "c \<in> set (children (t ! n))"
      from tree_inv_child[OF less.prems c] have cl: "c < length t" and pc: "parent (t ! c) = Some n"
        by simp_all
      from tree_inv_parent[OF less.prems(1) cl pc] tree_inv_visits_nonneg[OF less.prems(1) cl]
      show "\<exists>v. ucb1 (t ! c) (visits (t ! n)) = Inr v" by (intro ucb1_defined) simp_all
    qed
    from max_key_member[OF ne keys, of ucb_gt] obtain c where
      mk: "max_key ucb_gt (\<lambda>c. ucb1 (t ! c) (visits (t ! n))) (children (t ! n)) = Inr c"
      and c: "c \<in> set (children (t ! n))" by blast
    from tree_inv_child[OF less.prems c] have nc: "n < c" and cl: "c < length t" by simp_all
    then have "length t - c < length t - n" by simp
    from less.hyps[OF this less.prems(1) cl] obtain m where
      "select orc t c = Some (Inr m)" "m < length t" "c \<le> m"
      "is_terminal orc (t ! m) \<or> \<not> is_fully_expanded (t ! m)" by blast
    moreover have "select orc t n = select orc t c"
      using True mk by (subst select_unfold) simp
    ultimately show ?thesis using nc by auto
  qed
qed

lemma expand_eq:
  "n < length t \<Longrightarrow> untried_moves (t ! n) \<noteq> [] \<Longrightarrow>
   expand orc t n g =
     Inr (expanded orc t n g, length t,
          snd (new_node orc (push orc (board (t ! n)) (last (untried_moves (t ! n))))
                 (Some n) (Some (last (untried_moves (t ! n)))) g))"
  by (simp add: expand_def expanded_def Let_def split_beta nth_append list_update_append)

lemma new_node_fields:
  "board (fst (new_node orc b p m g)) = b"
  "parent (fst (new_node orc b p m g)) = p"
  "move (fst (new_node orc b p m g)) = m"
  "children (fst (new_node orc b p m g)) = []"
  "untried_moves (fst (new_node orc b p m g)) = fst (shuffle (legal_moves orc b) g)"
  "visits (fst (new_node orc b p m g)) = 0"
  "total_value (fst (new_node orc b p m g)) = 0"
  by (simp_all add: new_node_def split_beta)

lemma length_expanded: "length (expanded orc t n g) = Suc (length t)"
  by (simp add: expanded_def)

lemma expanded_old:
  assumes "n < length t" and "i < length t"
  shows "board (expanded orc t n g ! i) = board (t ! i)"
    and "parent (expanded orc t n g ! i) = parent (t ! i)"
    and "move (expanded orc t n g ! i) = move (t ! i)"
    and "visits (expanded orc t n g ! i) = visits (t ! i)"
    and "total_value (expanded orc t n g ! i) = total_value (t ! i)"
    and "children (expanded orc t n g ! i) =
           (if i = n then children (t ! n) @ [length t] else children (t ! i))"
    and "untried_moves (expanded orc t n g ! i) =
           (if i = n then butlast (untried_moves (t ! n)) else untried_moves (t ! i))"
  using assms by (simp_all add: expanded_def nth_append nth_list_update)

lemma expanded_new:
  shows "board (expanded orc t n g ! length t) = push orc (board (t ! n)) (last (untried_moves (t ! n)))"
    and "parent (expanded orc t n g ! length t) = Some n"
    and "move (expanded orc t n g ! length t) = Some (last (untried_moves (t ! n)))"
    and "visits (expanded orc t n g ! length t) = 0"
    and "total_value (expanded orc t n g ! length t) = 0"
    and "children (expanded orc t n g ! length t) = []"
    and "untried_moves (expanded orc t n g ! length t) =
           fst (shuffle (legal_moves orc (push orc (board (t ! n)) (last (untried_moves (t ! n))))) g)"
  by (simp_all add: expanded_def nth_append new_node_fields)

lemma expanded_inv:
  assumes inv: "tree_inv orc t" and muo: "moves_unless_over orc"
    and n: "n < length t" and ne: "untried_moves (t ! n) \<noteq> []"
  shows "tree_inv orc (expanded orc t n g)"
proof -
  let ?t = "expanded orc t n g"
  have len: "length ?t = Suc (length t)" by (rule length_expanded)
  have root: "0 < length t" "parent (t ! 0) = None" using tree_inv_root[OF inv] by simp_all
  have "?t \<noteq> []" using len by auto
  moreover have "parent (?t ! 0) = None" using root n by (simp add: expanded_old)
  moreover have "node_ok orc ?t i" if i: "i < length ?t" for i
  proof (cases "i < length t")
    case True
    note old = expanded_old[OF n True, of orc g]
    have a: "0 < i \<longrightarrow> (\<exists>p<i. parent (?t ! i) = Some p \<and> i \<in> set (children (?t ! p)) \<and>
                      visits (?t ! i) \<le> visits (?t ! p) \<and>
                      (\<exists>m. move (?t ! i) = Some m \<and> m \<in> set (legal_moves orc (board (?t ! p)))))"
    proof
      assume "0 < i"
      with tree_inv_node[OF inv True] obtain p m where p: "p < i" "parent (t ! i) = Some p"
        "i \<in> set (children (t ! p))" "visits (t ! i) \<le> visits (t ! p)"
        "move (t ! i) = Some m" "m \<in> set (legal_moves orc (board (t ! p)))"
        unfolding node_ok_def by blast
      have pl: "p < length t" using p(1) True by simp
      note oldp = expanded_old[OF n pl, of orc g]
      have "i \<in> set (children (?t ! p))" using p(3) by (auto simp: oldp)
      with p show "\<exists>p<i. parent (?t ! i) = Some p \<and> i \<in> set (children (?t ! p)) \<and>
                      visits (?t ! i) \<le> visits (?t ! p) \<and>
                      (\<exists>m. move (?t ! i) = Some m \<and> m \<in> set (legal_moves orc (board (?t ! p))))"
        by (auto simp: old oldp(1,4))
    qed
    have b: "\<forall>c\<in>set (children (?t ! i)). i < c \<and> c < length ?t \<and> parent (?t ! c) = Some i"
    proof
      fix c assume c: "c \<in> set (children (?t ! i))"
      show "i < c \<and> c < length ?t \<and> parent (?t ! c) = Some i"
      proof (cases "c \<in> set (children (t ! i))")
        case True
        from tree_inv_child[OF inv \<open>i < length t\<close> True]
        show ?thesis using len by (simp add: expanded_old(2)[OF n])
      next
        case False
        with c have "i = n" "c = length t" by (auto simp: old split: if_splits)
        then show ?thesis using n len by (simp add: expanded_new)
      qed
    qed
    have c: "distinct (children (?t ! i))"
      using tree_inv_distinct[OF inv True] tree_inv_child[OF inv n]
      by (auto simp: old)
    have d: "0 \<le> visits (?t ! i)" using tree_inv_visits_nonneg[OF inv True] by (simp add: old)
    have e: "set (untried_moves (?t ! i)) \<subseteq> set (legal_moves orc (board (?t ! i)))"
      using tree_inv_untried[OF inv True] by (auto simp: old dest: in_set_butlastD)
    have f: "\<not> is_game_over orc (board (?t ! i)) \<longrightarrow>
             untried_moves (?t ! i) \<noteq> [] \<or> children (?t ! i) \<noteq> []"
      using tree_inv_has_moves[OF inv True] by (simp add: old)
    from a b c d e f show ?thesis unfolding node_ok_def by blast
  next
    case False
    with i len have il: "i = length t" by simp
    note new = expanded_new[of orc t n g]
    note oldn = expanded_old[OF n n, of orc g]
    have mv: "last (untried_moves (t ! n)) \<in> set (legal_moves orc (board (t ! n)))"
      using tree_inv_untried[OF inv n] ne by (meson last_in_set subsetD)
    have a: "0 < i \<longrightarrow> (\<exists>p<i. parent (?t ! i) = Some p \<and> i \<in> set (children (?t ! p)) \<and>
                      visits (?t ! i) \<le> visits (?t ! p) \<and>
                      (\<exists>m. move (?t ! i) = Some m \<and> m \<in> set (legal_moves orc (board (?t ! p)))))"
    proof
      have "n < i \<and> parent (?t ! i) = Some n \<and> i \<in> set (children (?t ! n)) \<and>
                      visits (?t ! i) \<le> visits (?t ! n) \<and>
                      (\<exists>m. move (?t ! i) = Some m \<and> m \<in> set (legal_moves orc (board (?t ! n))))"
        using n mv tree_inv_visits_nonneg[OF inv n] by (simp add: il new oldn)
      then show "\<exists>p<i. parent (?t ! i) = Some p \<and> i \<in> set (children (?t ! p)) \<and>
                      visits (?t ! i) \<le> visits (?t ! p) \<and>
                      (\<exists>m. move (?t ! i) = Some m \<and> m \<in> set (legal_moves orc (board (?t ! p))))"
        by blast
    qed
    have b: "\<forall>c\<in>set (children (?t ! i)). i < c \<and> c < length ?t \<and> parent (?t ! c) = Some i"
      by (simp add: il new)
    have c: "distinct (children (?t ! i))" by (simp add: il new)
    have d: "0 \<le> visits (?t ! i)" by (simp add: il new)
    have e: "set (untried_moves (?t ! i)) \<subseteq> set (legal_moves orc (board (?t ! i)))"
      by (simp add: il new shuffle_set)
    have f: "\<not> is_game_over orc (board (?t ! i)) \<longrightarrow>
             untried_moves (?t ! i) \<noteq> [] \<or> children (?t ! i) \<noteq> []"
      using muo by (simp add: il new shuffle_Nil_iff moves_unless_over_def)
    from a b c d e f show ?thesis unfolding node_ok_def by blast
  qed
  ultimately show ?thesis unfolding tree_inv_def by blast
qed

lemma expanded_children_visits:
  assumes inv: "tree_inv orc t" and n: "n < length t"
  shows "children_visits (expanded orc t n g) = children_visits t"
proof -
  have root: "0 < length t" using tree_inv_root[OF inv] by simp
  have old: "(\<Sum>c\<leftarrow>children (t ! 0). visits (expanded orc t n g ! c)) = (\<Sum>c\<leftarrow>children (t ! 0). visits (t ! c))"
  proof (rule arg_cong[where f = sum_list], rule map_cong[OF refl])
    fix c assume "c \<in> set (children (t ! 0))"
    then have "c < length t" using tree_inv_child[OF inv root] by simp
    then show "visits (expanded orc t n g ! c) = visits (t ! c)" by (simp add: expanded_old[OF n])
  qed
  show ?thesis using old
    by (auto simp: children_visits_def expanded_old[OF n root] expanded_new)
qed

lemma on_path_root:
  "tree_inv orc t \<Longrightarrow> c < length t \<Longrightarrow> on_path t c 0"
proof (induction c rule: less_induct)
  case (less c)
  show ?case
  proof (cases "parent (t ! c)")
    case None
    have "c = 0"
    proof (rule ccontr)
      assume "c \<noteq> 0"
      then have "0 < c" by simp
      with tree_inv_node[OF less.prems] None show False unfolding node_ok_def by auto
    qed
    then show ?thesis by (simp add: on_path.start)
  next
    case (Some p)
    from tree_inv_parent[OF less.prems Some] have pc: "p < c" by simp
    then have "p < length t" using less.prems(2) by simp
    from less.IH[OF pc less.prems(1) this] show ?thesis
      by (simp add: on_path_from_parent[OF Some])
  qed
qed

lemma sum_list_indicator:
  "distinct xs \<Longrightarrow> c \<in> set xs \<Longrightarrow> (\<Sum>k\<leftarrow>xs. if k = c then 1 else 0) = (1::int)"
proof (induction xs)
  case Nil
  then show ?case by simp
next
  case (Cons x xs)
  show ?case
  proof (cases "x = c")
    case True
    with Cons.prems have "c \<notin> set xs" by simp
    then have "(\<Sum>k\<leftarrow>xs. if k = c then 1 else 0) = (0::int)"
      by (induction xs) auto
    with True show ?thesis by simp
  next
    case False
    with Cons show ?thesis by simp
  qed
qed

lemma root_children_on_path:
  "tree_inv orc t \<Longrightarrow> c < length t \<Longrightarrow>
   (\<Sum>k\<leftarrow>children (t ! 0). if on_path t c k then 1 else 0) = (if c = 0 then 0 else (1::int))"
proof (induction c rule: less_induct)
  case (less c)
  have root: "0 < length t" "parent (t ! 0) = None" using tree_inv_root[OF less.prems(1)] by simp_all
  have kids: "k \<in> set (children (t ! 0)) \<Longrightarrow> 0 < k \<and> parent (t ! k) = Some 0" for k
    using tree_inv_child[OF less.prems(1) root(1)] by simp
  show ?case
  proof (cases "parent (t ! c)")
    case None
    then have c0: "c = 0" using kids tree_inv_node[OF less.prems] unfolding node_ok_def
      by (cases "c = 0") auto
    have "(\<Sum>k\<leftarrow>children (t ! 0). if on_path t 0 k then 1 else 0) = (\<Sum>k\<leftarrow>children (t ! 0). (0::int))"
    proof (rule arg_cong[where f = sum_list], rule map_cong[OF refl])
      fix k assume "k \<in> set (children (t ! 0))"
      then have "k \<noteq> 0" using kids by auto
      then show "(if on_path t 0 k then 1 else 0) = (0::int)"
        by (simp add: on_path_no_parent[OF root(2)])
    qed
    then show ?thesis using c0 by simp
  next
    case (Some p)
    from tree_inv_parent[OF less.prems Some] have pc: "p < c" and cin: "c \<in> set (children (t ! p))"
      by simp_all
    have pl: "p < length t" using pc less.prems(2) by simp
    have c0: "c \<noteq> 0" using pc by simp
    show ?thesis
    proof (cases "p = 0")
      case True
      have "(\<Sum>k\<leftarrow>children (t ! 0). if on_path t c k then 1 else 0)
            = (\<Sum>k\<leftarrow>children (t ! 0). if k = c then 1 else (0::int))"
      proof (rule arg_cong[where f = sum_list], rule map_cong[OF refl])
        fix k assume "k \<in> set (children (t ! 0))"
        then have "k \<noteq> 0" using kids by auto
        then show "(if on_path t c k then 1 else 0) = (if k = c then 1 else (0::int))"
          using True by (simp add: on_path_from_parent[OF Some] on_path_no_parent[OF root(2)])
      qed
      also have "\<dots> = 1"
        using tree_inv_distinct[OF less.prems(1) root(1)] cin True by (intro sum_list_indicator) simp_all
      finally show ?thesis using c0 by simp
    next
      case False
      have "(\<Sum>k\<leftarrow>children (t ! 0). if on_path t c k then 1 else 0)
            = (\<Sum>k\<leftarrow>children (t ! 0). if on_path t p k then 1 else (0::int))"
      proof (rule arg_cong[where f = sum_list], rule map_cong[OF refl])
        fix k assume "k \<in> set (children (t ! 0))"
        then have "parent (t ! k) = Some 0" using kids by simp
        with Some False have "k \<noteq> c" by auto
        then show "(if on_path t c k then 1 else 0) = (if on_path t p k then 1 else (0::int))"
          by (simp add: on_path_from_parent[OF Some])
      qed
      also have "\<dots> = 1" using less.IH[OF pc less.prems(1) pl] False by simp
      finally show ?thesis using c0 by simp
    qed
  qed
qed

lemma backpropagate_inv:
  assumes inv: "tree_inv orc t" and c: "c < length t"
  shows "\<exists>t'. backpropagate orc t (Some c) r = Some t' \<and> tree_inv orc t' \<and> length t' = length t \<and>
              visits (t' ! 0) = visits (t ! 0) + 1 \<and>
              children_visits t' = children_visits t + (if c = 0 then 0 else 1) \<and>
              (\<forall>i<length t. board (t' ! i) = board (t ! i) \<and> children (t' ! i) = children (t ! i) \<and>
                             move (t' ! i) = move (t ! i))"
proof -
  from backpropagate_path[OF tree_inv_parents_below[OF inv] c, of orc r] obtain t' where
    bp: "backpropagate orc t (Some c) r = Some t'" and len: "length t' = length t"
    and nth: "\<And>i. i < length t \<Longrightarrow> t' ! i = (if on_path t c i then visit orc r (t ! i) else t ! i)"
    by blast
  have root: "0 < length t" "parent (t ! 0) = None" using tree_inv_root[OF inv] by simp_all
  have fields: "board (t' ! i) = board (t ! i)" "parent (t' ! i) = parent (t ! i)"
    "move (t' ! i) = move (t ! i)" "children (t' ! i) = children (t ! i)"
    "untried_moves (t' ! i) = untried_moves (t ! i)"
    "visits (t' ! i) = visits (t ! i) + (if on_path t c i then 1 else 0)" if "i < length t" for i
    using nth[OF that] by (simp_all add: visit_fields)
  have v0: "visits (t' ! 0) = visits (t ! 0) + 1"
    using fields(6)[OF root(1)] on_path_root[OF inv c] by simp
  have cv: "children_visits t' = children_visits t + (if c = 0 then 0 else 1)"
  proof -
    have "(\<Sum>k\<leftarrow>children (t ! 0). visits (t' ! k))
          = (\<Sum>k\<leftarrow>children (t ! 0). visits (t ! k) + (if on_path t c k then 1 else 0))"
    proof (rule arg_cong[where f = sum_list], rule map_cong[OF refl])
      fix k assume "k \<in> set (children (t ! 0))"
      then have "k < length t" using tree_inv_child[OF inv root(1)] by simp
      then show "visits (t' ! k) = visits (t ! k) + (if on_path t c k then 1 else 0)"
        by (rule fields(6))
    qed
    also have "\<dots> = (\<Sum>k\<leftarrow>children (t ! 0). visits (t ! k))
                     + (\<Sum>k\<leftarrow>children (t ! 0). if on_path t c k then 1 else 0)"
      by (simp add: sum_list_addf)
    finally show ?thesis
      using root_children_on_path[OF inv c]
      by (simp add: children_visits_def fields(4)[OF root(1)])
  qed
  have ok: "node_ok orc t' i" if i: "i < length t'" for i
  proof -
    have il: "i < length t" using i len by simp
    note fi = fields[OF il]
    have a: "0 < i \<longrightarrow> (\<exists>p<i. parent (t' ! i) = Some p \<and> i \<in> set (children (t' ! p)) \<and>
                      visits (t' ! i) \<le> visits (t' ! p) \<and>
                      (\<exists>m. move (t' ! i) = Some m \<and> m \<in> set (legal_moves orc (board (t' ! p)))))"
    proof
      assume "0 < i"
      with tree_inv_node[OF inv il] obtain p m where p: "p < i" "parent (t ! i) = Some p"
        "i \<in> set (children (t ! p))" "visits (t ! i) \<le> visits (t ! p)"
        "move (t ! i) = Some m" "m \<in> set (legal_moves orc (board (t ! p)))"
        unfolding node_ok_def by blast
      have pl: "p < length t" using p(1) il by simp
      note fp = fields[OF pl]
      have "on_path t c i \<Longrightarrow> on_path t c p" using p(2) by (auto intro: on_path.step)
      then have "visits (t' ! i) \<le> visits (t' ! p)" using p(4) by (auto simp: fi(6) fp(6))
      with p show "\<exists>p<i. parent (t' ! i) = Some p \<and> i \<in> set (children (t' ! p)) \<and>
                      visits (t' ! i) \<le> visits (t' ! p) \<and>
                      (\<exists>m. move (t' ! i) = Some m \<and> m \<in> set (legal_moves orc (board (t' ! p))))"
        by (auto simp: fi(2,3) fp(1,4))
    qed
    have b: "\<forall>k\<in>set (children (t' ! i)). i < k \<and> k < length t' \<and> parent (t' ! k) = Some i"
    proof
      fix k assume "k \<in> set (children (t' ! i))"
      then have k: "k \<in> set (children (t ! i))" by (simp add: fi(4))
      from tree_inv_child[OF inv il k] show "i < k \<and> k < length t' \<and> parent (t' ! k) = Some i"
        by (simp add: len fields(2))
    qed
    have c': "distinct (children (t' ! i))" using tree_inv_distinct[OF inv il] by (simp add: fi(4))
    have d: "0 \<le> visits (t' ! i)" using tree_inv_visits_nonneg[OF inv il] by (simp add: fi(6))
    have e: "set (untried_moves (t' ! i)) \<subseteq> set (legal_moves orc (board (t' ! i)))"
      using tree_inv_untried[OF inv il] by (simp add: fi(1,5))
    have f: "\<not> is_game_over orc (board (t' ! i)) \<longrightarrow>
             untried_moves (t' ! i) \<noteq> [] \<or> children (t' ! i) \<noteq> []"
      using tree_inv_has_moves[OF inv il] by (simp add: fi(1,4,5))
    from a b c' d e f show ?thesis unfolding node_ok_def by blast
  qed
  have "tree_inv orc t'"
    unfolding tree_inv_def using ok len root by (auto simp: fields(2)[OF root(1)])
  with bp len v0 cv fields(1,3,4) show ?thesis by blast
qed

lemma select_terminal: "is_terminal orc (t ! n) \<Longrightarrow> select orc t n = Some (Inr n)"
  by (subst select_unfold) simp

lemma mcts_iteration_inv:
  assumes inv: "tree_inv orc t" and muo: "moves_unless_over orc"
  shows "\<exists>t' g'. mcts_iteration orc (t, g) = Some (Inr (t', g')) \<and> tree_inv orc t' \<and>
           board (t' ! 0) = board (t ! 0) \<and> visits (t' ! 0) = visits (t ! 0) + 1 \<and>
           (\<not> is_game_over orc (board (t ! 0)) \<longrightarrow> children_visits t' = children_visits t + 1) \<and>
           (is_game_over orc (board (t ! 0)) \<longrightarrow> children (t' ! 0) = children (t ! 0))"
proof -
  have root: "0 < length t" using tree_inv_root[OF inv] by simp
  from select_total[OF inv root] obtain m where
    sel: "select orc t 0 = Some (Inr m)" and ml: "m < length t"
    and stop: "is_terminal orc (t ! m) \<or> \<not> is_fully_expanded (t ! m)" by blast
  have m0: "is_game_over orc (board (t ! 0)) \<Longrightarrow> m = 0"
    using sel select_terminal[of orc t 0] by (simp add: is_terminal_def)
  show ?thesis
  proof (cases "\<not> is_terminal orc (t ! m) \<and> \<not> is_fully_expanded (t ! m)")
    case True
    then have ne: "untried_moves (t ! m) \<noteq> []" by (simp add: is_fully_expanded_def)
    let ?t1 = "expanded orc t m g"
    let ?g1 = "snd (new_node orc (push orc (board (t ! m)) (last (untried_moves (t ! m))))
                 (Some m) (Some (last (untried_moves (t ! m)))) g)"
    have ex: "expand orc t m g = Inr (?t1, length t, ?g1)" using ml ne by (rule expand_eq)
    have inv1: "tree_inv orc ?t1" using inv muo ml ne by (rule expanded_inv)
    have l1: "length t < length ?t1" by (simp add: length_expanded)
    from rollout_ok[OF muo, of "board (?t1 ! length t)" ?g1] obtain r g2 where
      ro: "rollout orc (board (?t1 ! length t)) ?g1 = (Inr r, g2)" by blast
    from backpropagate_inv[OF inv1 l1, of r] obtain t2 where
      bp: "backpropagate orc ?t1 (Some (length t)) r = Some t2" and inv2: "tree_inv orc t2"
      and v2: "visits (t2 ! 0) = visits (?t1 ! 0) + 1"
      and cv2: "children_visits t2 = children_visits ?t1 + (if length t = 0 then 0 else 1)"
      and f2: "\<forall>i<length ?t1. board (t2 ! i) = board (?t1 ! i) \<and> children (t2 ! i) = children (?t1 ! i) \<and>
                             move (t2 ! i) = move (?t1 ! i)"
      by blast
    have it: "mcts_iteration orc (t, g) = Some (Inr (t2, g2))"
      using sel True ex ro bp by (simp add: mcts_iteration_def)
    have "0 < length ?t1" by (simp add: length_expanded)
    with f2 have "board (t2 ! 0) = board (?t1 ! 0)" by blast
    then have b0: "board (t2 ! 0) = board (t ! 0)"
      by (simp add: expanded_old(1)[OF ml root])
    have v0: "visits (t2 ! 0) = visits (t ! 0) + 1"
      using v2 by (simp add: expanded_old(4)[OF ml root])
    have cv: "children_visits t2 = children_visits t + 1"
      using cv2 root by (simp add: expanded_children_visits[OF inv ml])
    have "\<not> is_game_over orc (board (t ! 0))"
      using m0 True by (auto simp: is_terminal_def)
    with it inv2 b0 v0 cv show ?thesis by blast
  next
    case False
    with stop have tm: "is_terminal orc (t ! m)" by blast
    from rollout_ok[OF muo, of "board (t ! m)" g] obtain r g2 where
      ro: "rollout orc (board (t ! m)) g = (Inr r, g2)" by blast
    from backpropagate_inv[OF inv ml, of r] obtain t2 where
      bp: "backpropagate orc t (Some m) r = Some t2" and inv2: "tree_inv orc t2"
      and v2: "visits (t2 ! 0) = visits (t ! 0) + 1"
      and cv2: "children_visits t2 = children_visits t + (if m = 0 then 0 else 1)"
      and f2: "\<forall>i<length t. board (t2 ! i) = board (t ! i) \<and> children (t2 ! i) = children (t ! i) \<and>
                             move (t2 ! i) = move (t ! i)"
      by blast
    have it: "mcts_iteration orc (t, g) = Some (Inr (t2, g2))"
      using sel False ro bp by (auto simp: mcts_iteration_def)
    have "\<not> is_game_over orc (board (t ! 0)) \<Longrightarrow> m \<noteq> 0"
      using tm by (cases "m = 0") (simp_all add: is_terminal_def)
    with it inv2 v2 cv2 f2 root show ?thesis by auto
  qed
qed

lemma mcts_loop_inv:
  assumes muo: "moves_unless_over orc"
  shows "tree_inv orc t \<Longrightarrow>
         \<exists>t' g'. mcts_loop orc k (t, g) = Some (Inr (t', g')) \<and> tree_inv orc t' \<and>
           board (t' ! 0) = board (t ! 0) \<and> visits (t' ! 0) = visits (t ! 0) + int k \<and>
           (\<not> is_game_over orc (board (t ! 0)) \<longrightarrow> children_visits t' = children_visits t + int k) \<and>
           (is_game_over orc (board (t ! 0)) \<longrightarrow> children (t' ! 0) = children (t ! 0))"
proof (induction k arbitrary: t g)
  case 0
  then show ?case by simp
next
  case (Suc k)
  from mcts_iteration_inv[OF Suc.prems muo, of g] obtain t1 g1 where
    it: "mcts_iteration orc (t, g) = Some (Inr (t1, g1))" and inv1: "tree_inv orc t1"
    and b1: "board (t1 ! 0) = board (t ! 0)" and v1: "visits (t1 ! 0) = visits (t ! 0) + 1"
    and c1: "\<not> is_game_over orc (board (t ! 0)) \<longrightarrow> children_visits t1 = children_visits t + 1"
    and k1: "is_game_over orc (board (t ! 0)) \<longrightarrow> children (t1 ! 0) = children (t ! 0)"
    by blast
  from Suc.IH[OF inv1, of g1] obtain t' g' where
    lp: "mcts_loop orc k (t1, g1) = Some (Inr (t', g'))" and inv': "tree_inv orc t'"
    and b': "board (t' ! 0) = board (t1 ! 0)" and v': "visits (t' ! 0) = visits (t1 ! 0) + int k"
    and c': "\<not> is_game_over orc (board (t1 ! 0)) \<longrightarrow> children_visits t' = children_visits t1 + int k"
    and k': "is_game_over orc (board (t1 ! 0)) \<longrightarrow> children (t' ! 0) = children (t1 ! 0)"
    by blast
  have "mcts_loop orc (Suc k) (t, g) = Some (Inr (t', g'))" using it lp by simp
  with inv' b' b1 v' v1 c' c1 k' k1 show ?case by auto
qed

lemma root_tree_inv:
  assumes muo: "moves_unless_over orc"
  shows "tree_inv orc [fst (new_node orc brd None None g)]"
proof -
  let ?t = "[fst (new_node orc brd None None g)]"
  have "node_ok orc ?t 0"
    unfolding node_ok_def using muo
    by (simp add: new_node_fields shuffle_set shuffle_Nil_iff moves_unless_over_def)
  then show ?thesis unfolding tree_inv_def by (simp add: new_node_fields)
qed

lemma mcts_search_legal:
  assumes muo: "moves_unless_over orc" and ne: "legal_moves orc brd \<noteq> []"
  shows "\<exists>m. mcts_search orc brd n g = Some (Inr (Some m)) \<and> m \<in> set (legal_moves orc brd)"
proof (cases "length (legal_moves orc brd) = 1")
  case True
  then have "legal_moves orc brd ! 0 \<in> set (legal_moves orc brd)" by (intro nth_mem) simp
  then show ?thesis using True ne by (simp add: mcts_search_def)
next
  case False
  obtain root' g1 where nn: "new_node orc brd None None g = (root', g1)"
    by (cases "new_node orc brd None None g")
  then have r': "root' = fst (new_node orc brd None None g)" by simp
  from mcts_loop_inv[OF muo root_tree_inv[OF muo, of brd g], of n g1] obtain t g2 where
    lp: "mcts_loop orc n ([root'], g1) = Some (Inr (t, g2))" and inv: "tree_inv orc t"
    and b0: "board (t ! 0) = brd"
    unfolding r' by (auto simp: new_node_fields)
  have root: "0 < length t" using tree_inv_root[OF inv] by simp
  have unf: "mcts_search orc brd n g =
      (if children (t ! 0) = []
       then (case choice (legal_moves orc brd) g2 of
               (Inl e, g3) \<Rightarrow> Some (Inl e)
             | (Inr mv, g3) \<Rightarrow> Some (Inr (Some mv)))
       else (case max_key (>) (\<lambda>c. Inr (visits (t ! c))) (children (t ! 0)) of
               Inl e \<Rightarrow> Some (Inl e)
             | Inr best_child \<Rightarrow> Some (Inr (move (t ! best_child)))))"
    using False ne lp nn by (simp add: mcts_search_def)
  show ?thesis
  proof (cases "children (t ! 0) = []")
    case True
    from choice_nonempty[OF ne, of g2] obtain x g3 where
      "choice (legal_moves orc brd) g2 = (Inr x, g3)" "x \<in> set (legal_moves orc brd)" by blast
    then show ?thesis using unf True by simp
  next
    case kids: False
    have "\<forall>c\<in>set (children (t ! 0)). \<exists>v. (Inr (visits (t ! c)) :: error + int) = Inr v" by simp
    from max_key_member[OF kids this, of "(>)"] obtain c where
      mk: "max_key (>) (\<lambda>c. Inr (visits (t ! c))) (children (t ! 0)) = Inr c"
      and c: "c \<in> set (children (t ! 0))" by blast
    from tree_inv_child[OF inv root c] have cl: "c < length t" and pc: "parent (t ! c) = Some 0"
      by simp_all
    from tree_inv_move[OF inv cl pc] b0 obtain m where
      "move (t ! c) = Some m" "m \<in> set (legal_moves orc brd)" by auto
    then show ?thesis using unf kids mk by simp
  qed
qed

lemma moves_unless_over_fifty: "moves_unless_over fifty"
  by (simp add: moves_unless_over_def fifty_def scripted_def fifty_script_def)

lemma fifty_legal: "legal_moves fifty [] = [mk_move 0 8, mk_move 0 1]"
  by (simp add: fifty_def scripted_def fifty_script_def)

lemma mcts_search_no_moves:
  "legal_moves orc brd = [] \<Longrightarrow> mcts_search orc brd n g = Some (Inl NoLegalMoves)"
  by (simp add: mcts_search_def)

lemma mcts_search_degenerate:
  assumes "2 \<le> length (legal_moves orc brd)"
  shows "mcts_search orc brd 0 g =
           Some (Inr (Some (legal_moves orc brd !
                             (snd (new_node orc brd None None g) 0 mod length (legal_moves orc brd)))))"
proof -
  have ne: "legal_moves orc brd \<noteq> []" using assms by auto
  have n1: "length (legal_moves orc brd) \<noteq> 1" using assms by simp
  obtain root' g1 where nn: "new_node orc brd None None g = (root', g1)"
    by (cases "new_node orc brd None None g")
  then have r': "root' = fst (new_node orc brd None None g)" by simp
  have "children root' = []" unfolding r' by (simp add: new_node_fields)
  then show ?thesis using ne n1 nn
    by (simp add: mcts_search_def choice_def randbelow_def Let_def)
qed

lemma single_legal: "legal_moves single [] = [mk_move 0 1]"
  by (simp add: single_def scripted_def single_script_def)

section \<open>The search: visit counts\<close>

text \<open>
  C8, as the code has it.  With an oracle in which a game that is not over has a legal
  move, the loop of \<open>_mcts_search\<close> completes any number \<open>N\<close> of iterations from the root
  node; afterwards the root's visit count is \<open>N\<close>; if the root position is not over, the
  visit counts of the root's children add up to \<open>N\<close>; if it is over, the root has no
  children.
\<close>

theorem visit_accounting:
  assumes "moves_unless_over orc"
  shows "\<exists>t g'. mcts_loop orc N ([fst (new_node orc brd None None g)],
                                 snd (new_node orc brd None None g)) = Some (Inr (t, g')) \<and>
           visits (t ! 0) = int N \<and>
           (\<not> is_game_over orc brd \<longrightarrow> (\<Sum>c\<leftarrow>children (t ! 0). visits (t ! c)) = int N) \<and>
           (is_game_over orc brd \<longrightarrow> children (t ! 0) = [])"
proof -
  let ?root = "fst (new_node orc brd None None g)"
  from mcts_loop_inv[OF assms root_tree_inv[OF assms, of brd g], of N "snd (new_node orc brd None None g)"]
  obtain t g' where lp: "mcts_loop orc N ([?root], snd (new_node orc brd None None g)) = Some (Inr (t, g'))"
    and v: "visits (t ! 0) = visits ([?root] ! 0) + int N"
    and c: "\<not> is_game_over orc (board ([?root] ! 0)) \<longrightarrow>
            children_visits t = children_visits [?root] + int N"
    and k: "is_game_over orc (board ([?root] ! 0)) \<longrightarrow> children (t ! 0) = children ([?root] ! 0)"
    by blast
  have "visits (t ! 0) = int N" using v by (simp add: new_node_fields)
  moreover have "\<not> is_game_over orc brd \<longrightarrow> (\<Sum>c\<leftarrow>children (t ! 0). visits (t ! c)) = int N"
    using c by (simp add: new_node_fields children_visits_def)
  moreover have "is_game_over orc brd \<longrightarrow> children (t ! 0) = []"
    using k by (simp add: new_node_fields)
  ultimately show ?thesis using lp by blast
qed

theorem visit_accounting_witness:
  "moves_unless_over fifty \<and> \<not> is_game_over fifty [] \<and>
   (\<exists>t g'. mcts_loop fifty 3 ([fst (new_node fifty [] None None (\<lambda>i. i))],
                               snd (new_node fifty [] None None (\<lambda>i. i))) = Some (Inr (t, g')) \<and>
           visits (t ! 0) = int 3 \<and> (\<Sum>c\<leftarrow>children (t ! 0). visits (t ! c)) = int 3)"
proof -
  have no: "\<not> is_game_over fifty []" by (simp add: fifty_def scripted_def fifty_script_def)
  from visit_accounting[OF moves_unless_over_fifty, of 3 "[]" "\<lambda>i. i"] no moves_unless_over_fifty
  show ?thesis by blast
qed

lemma kings_over: "is_game_over kings b"
  by (simp add: kings_def scripted_def kings_script_def)

lemma kings_rollout: "rollout kings b g = (Inr 0, g)"
  by (subst rollout_def, subst rollout_loop.simps)
     (simp add: kings_over, simp add: kings_def scripted_def kings_script_def)

lemma kings_iteration:
  "board nd = [] \<Longrightarrow> parent nd = None \<Longrightarrow>
   mcts_iteration kings ([nd], g) = Some (Inr ([nd\<lparr>visits := visits nd + 1\<rparr>], g))"
proof -
  assume b: "board nd = []" and p: "parent nd = None"
  have sel: "select kings [nd] 0 = Some (Inr 0)"
    by (rule select_terminal) (simp add: is_terminal_def kings_over)
  have trn: "turn kings (board nd) = White"
    by (simp add: b kings_def scripted_def kings_script_def)
  have bp: "backpropagate kings [nd] (Some 0) 0 = Some [nd\<lparr>visits := visits nd + 1\<rparr>]"
    by (simp add: backpropagate_Some backpropagate_None p visit_def trn)
  show ?thesis
    by (simp add: mcts_iteration_def sel is_terminal_def kings_over kings_rollout bp)
qed

text \<open>
  With two bare kings the root has five legal moves and the game is over: three
  iterations visit the root three times and create no child, so the children's visit
  counts add up to 0, not 3.
\<close>

theorem visit_accounting_counterexample:
  "2 \<le> length (legal_moves kings []) \<and>
   mcts_loop kings 3 ([kings_root], kings_rng) = Some (Inr ([kings_root\<lparr>visits := 3\<rparr>], kings_rng)) \<and>
   visits ([kings_root\<lparr>visits := 3\<rparr>] ! 0) = 3 \<and>
   children ([kings_root\<lparr>visits := 3\<rparr>] ! 0) = [] \<and>
   children_visits [kings_root\<lparr>visits := 3\<rparr>] = 0"
proof -
  have b: "board kings_root = []" and p: "parent kings_root = None"
    and v: "visits kings_root = 0" and c: "children kings_root = []"
    by (simp_all add: kings_root_def new_node_fields)
  have l: "2 \<le> length (legal_moves kings [])"
    by (simp add: kings_def scripted_def kings_script_def)
  have "mcts_loop kings (Suc (Suc (Suc 0))) ([kings_root], kings_rng) =
          Some (Inr ([kings_root\<lparr>visits := 3\<rparr>], kings_rng))"
    by (simp add: kings_iteration b p v)
  then show ?thesis using l c by (simp add: numeral_3_eq_3 children_visits_def)
qed

section \<open>The engines: results\<close>

text \<open>
  C3.  For every position with at least one legal move, the alpha-beta engine (for a
  depth of at least 1) and the MCTS engine (for every number of iterations and every
  random source, so on each of its three result paths) return a move that is in the list
  of legal moves of that position.
\<close>

theorem engines_return_legal_move:
  assumes "legal_moves orc brd \<noteq> []"
  shows "(1 \<le> depth \<longrightarrow> nat depth \<le> fuel \<longrightarrow>
            (\<exists>m b'. search_root fuel orc brd depth = Some (Inr m, b') \<and>
                    m \<in> set (legal_moves orc brd))) \<and>
         (moves_unless_over orc \<longrightarrow>
            (\<exists>m. mcts_search orc brd n g = Some (Inr (Some m)) \<and> m \<in> set (legal_moves orc brd)))"
  using search_root_legal[OF assms] mcts_search_legal[OF _ assms] by blast

theorem engines_return_legal_move_witness:
  "legal_moves fifty [] \<noteq> [] \<and> (1::int) \<le> 2 \<and> nat 2 \<le> (2::nat) \<and> moves_unless_over fifty \<and>
   (\<exists>m b'. search_root 2 fifty [] 2 = Some (Inr m, b') \<and> m \<in> set (legal_moves fifty [])) \<and>
   (\<exists>m. mcts_search fifty [] 5 (\<lambda>i. i) = Some (Inr (Some m)) \<and> m \<in> set (legal_moves fifty []))"
proof -
  have ne: "legal_moves fifty [] \<noteq> []" by (simp add: fifty_legal)
  from engines_return_legal_move[OF ne, of 2 2 5 "\<lambda>i. i"] ne moves_unless_over_fifty
  show ?thesis by simp
qed

text \<open>
  C4.  Both engines raise the no-legal-moves error when the position has no legal move.
  When it has one, the alpha-beta engine raises nothing and returns a move for every
  depth of at least 1, and the MCTS engine returns a move and raises nothing; when the
  deadline admits no iteration at all, the MCTS engine returns the legal move that the
  random source picks.  (That the pick is uniform is a property of the random source and
  not part of the model.)
\<close>

theorem error_iff_no_legal_moves:
  "(legal_moves orc brd = [] \<longrightarrow>
      search_root fuel orc brd depth = Some (Inl NoLegalMoves, brd) \<and>
      mcts_search orc brd n g = Some (Inl NoLegalMoves)) \<and>
   (legal_moves orc brd \<noteq> [] \<longrightarrow>
      (\<forall>e b'. search_root fuel orc brd depth \<noteq> Some (Inl e, b')) \<and>
      (1 \<le> depth \<longrightarrow> nat depth \<le> fuel \<longrightarrow>
         (\<exists>m b'. search_root fuel orc brd depth = Some (Inr m, b'))) \<and>
      (moves_unless_over orc \<longrightarrow> (\<exists>m. mcts_search orc brd n g = Some (Inr (Some m))))) \<and>
   (2 \<le> length (legal_moves orc brd) \<longrightarrow>
      mcts_search orc brd 0 g =
        Some (Inr (Some (legal_moves orc brd !
                          (snd (new_node orc brd None None g) 0 mod length (legal_moves orc brd))))))"
proof (intro conjI impI allI)
  assume "legal_moves orc brd = []"
  then show "search_root fuel orc brd depth = Some (Inl NoLegalMoves, brd)"
    and "mcts_search orc brd n g = Some (Inl NoLegalMoves)"
    by (simp_all add: search_root_no_moves mcts_search_no_moves)
next
  fix e b' assume "legal_moves orc brd \<noteq> []"
  then show "search_root fuel orc brd depth \<noteq> Some (Inl e, b')" by (rule search_root_no_error)
next
  assume "legal_moves orc brd \<noteq> []" "1 \<le> depth" "nat depth \<le> fuel"
  from search_root_legal[OF this] show "\<exists>m b'. search_root fuel orc brd depth = Some (Inr m, b')"
    by blast
next
  assume "legal_moves orc brd \<noteq> []" "moves_unless_over orc"
  from mcts_search_legal[OF this(2,1), of n g]
  show "\<exists>m. mcts_search orc brd n g = Some (Inr (Some m))" by blast
next
  assume "2 \<le> length (legal_moves orc brd)"
  then show "mcts_search orc brd 0 g =
        Some (Inr (Some (legal_moves orc brd !
                          (snd (new_node orc brd None None g) 0 mod length (legal_moves orc brd)))))"
    by (rule mcts_search_degenerate)
qed

theorem error_iff_no_legal_moves_witness:
  "legal_moves fifty [mk_move 0 8] = [] \<and>
   search_root 2 fifty [mk_move 0 8] 2 = Some (Inl NoLegalMoves, [mk_move 0 8]) \<and>
   mcts_search fifty [mk_move 0 8] 5 (\<lambda>i. i) = Some (Inl NoLegalMoves) \<and>
   legal_moves fifty [] \<noteq> [] \<and> (1::int) \<le> 2 \<and> nat 2 \<le> (2::nat) \<and> moves_unless_over fifty \<and>
   2 \<le> length (legal_moves fifty []) \<and>
   (\<exists>m b'. search_root 2 fifty [] 2 = Some (Inr m, b')) \<and>
   (\<exists>m. mcts_search fifty [] 5 (\<lambda>i. i) = Some (Inr (Some m))) \<and>
   mcts_search fifty [] 0 (\<lambda>i. i) =
     Some (Inr (Some (legal_moves fifty [] !
                       (snd (new_node fifty [] None None (\<lambda>i. i)) 0 mod length (legal_moves fifty [])))))"
proof -
  have e: "legal_moves fifty [mk_move 0 8] = []"
    by (simp add: fifty_def scripted_def fifty_script_def)
  have ne: "legal_moves fifty [] \<noteq> []" "2 \<le> length (legal_moves fifty [])"
    by (simp_all add: fifty_legal)
  from error_iff_no_legal_moves[of fifty "[mk_move 0 8]" 2 2 5 "\<lambda>i. i"]
    error_iff_no_legal_moves[of fifty "[]" 2 2 5 "\<lambda>i. i"] e ne moves_unless_over_fifty
  show ?thesis by simp
qed

text \<open>
  C7, as the code has it.  For every position with exactly one legal move, the MCTS
  engine returns that move before it builds a tree, for every number of iterations and
  every random source; the alpha-beta engine returns that move too, for every depth of at
  least 1, but it has no shortcut: it searches the move by a call of \<open>_negamax\<close>, so with no
  nesting of \<open>_negamax\<close> allowed it returns nothing.
\<close>

theorem single_move_returned:
  assumes "legal_moves orc brd = [m]"
  shows "mcts_search orc brd n g = Some (Inr (Some m)) \<and>
         (1 \<le> depth \<longrightarrow> nat depth \<le> fuel \<longrightarrow>
            (\<exists>b'. search_root fuel orc brd depth = Some (Inr m, b'))) \<and>
         search_root 0 orc brd depth = None"
proof (intro conjI impI)
  show "mcts_search orc brd n g = Some (Inr (Some m))" using assms by (simp add: mcts_search_def)
next
  assume "1 \<le> depth" "nat depth \<le> fuel"
  with search_root_legal[of orc brd depth fuel] assms
  show "\<exists>b'. search_root fuel orc brd depth = Some (Inr m, b')" by auto
next
  show "search_root 0 orc brd depth = None" using assms by (simp add: search_root_needs_negamax)
qed

theorem single_move_returned_witness:
  "legal_moves single [] = [mk_move 0 1] \<and> (1::int) \<le> 1 \<and> nat 1 \<le> (1::nat) \<and>
   mcts_search single [] 7 (\<lambda>i. i) = Some (Inr (Some (mk_move 0 1))) \<and>
   (\<exists>b'. search_root 1 single [] 1 = Some (Inr (mk_move 0 1), b')) \<and>
   search_root 0 single [] 1 = None"
  using single_move_returned[OF single_legal, of 7 "\<lambda>i. i" 1 1] single_legal by simp

text \<open>
  In the position \<open>single\<close> the only legal move is Kb1, and the root search calls
  \<open>_negamax\<close> on it: it returns nothing when no call is allowed, and the move when one is.
\<close>

theorem single_move_counterexample:
  "legal_moves single [] = [mk_move 0 1] \<and> search_root 0 single [] 1 = None \<and>
   search_root 1 single [] 1 = Some (Inr (mk_move 0 1), [])"
  by (simp add: search_root_def search_root_scored_def ordered_moves_def single_def scripted_def
      single_script_def move_order_key_def Let_def mk_move_def)

text \<open>
  C9.  Whatever \<open>select_move\<close> returns, on either agent, the caller's board and every other
  board of the caller are as before: the search works on a copy.  The call returns (for a
  depth of at least 1, and for MCTS with an oracle in which a game that is not over has a
  legal move).  With an oracle whose \<open>pop\<close> undoes \<open>push\<close>, every apply is undone: the key
  function and the move orderer hand the board back unchanged, and after the alpha-beta
  search the copy is again equal to the caller's board.
\<close>

theorem select_move_leaves_board:
  assumes "r < length h"
  shows "(\<forall>res h'. minimax_select_move fuel orc depth h r = Some (res, h') \<longrightarrow>
            take (length h) h' = h) \<and>
         (\<forall>res h'. mcts_select_move orc n g h r = Some (res, h') \<longrightarrow> h' = h @ [h ! r]) \<and>
         (1 \<le> depth \<longrightarrow> nat depth \<le> fuel \<longrightarrow>
            (\<exists>res h'. minimax_select_move fuel orc depth h r = Some (res, h'))) \<and>
         (moves_unless_over orc \<longrightarrow> (\<exists>res h'. mcts_select_move orc n g h r = Some (res, h'))) \<and>
         (pop_push orc \<longrightarrow>
            (\<forall>b mv. snd (move_order_key orc b mv) = b) \<and>
            (\<forall>b. snd (ordered_moves orc b) = b) \<and>
            (1 \<le> depth \<longrightarrow> nat depth \<le> fuel \<longrightarrow>
               (\<exists>res. minimax_select_move fuel orc depth h r = Some (res, h @ [h ! r]))))"
proof (intro conjI impI allI)
  fix res h' assume "minimax_select_move fuel orc depth h r = Some (res, h')"
  then show "take (length h) h' = h"
    by (auto simp: minimax_select_move_def copy_board_def split: option.splits)
next
  fix res h' assume "mcts_select_move orc n g h r = Some (res, h')"
  then show "h' = h @ [h ! r]"
    by (auto simp: mcts_select_move_def copy_board_def split: option.splits)
next
  assume "1 \<le> depth" "nat depth \<le> fuel"
  from search_root_scored_returns[OF this, of orc "h ! r"]
  obtain res b' where "search_root_scored fuel orc (h ! r) depth = Some (res, b')" by (elim exE)
  then have "\<exists>res b'. search_root fuel orc (h ! r) depth = Some (res, b')"
    by (cases res) (auto simp: search_root_def)
  then show "\<exists>res h'. minimax_select_move fuel orc depth h r = Some (res, h')"
    by (auto simp: minimax_select_move_def copy_board_def)
next
  assume muo: "moves_unless_over orc"
  have "\<exists>res. mcts_search orc (h ! r) n g = Some res"
  proof (cases "legal_moves orc (h ! r) = []")
    case True
    then show ?thesis by (simp add: mcts_search_no_moves)
  next
    case False
    from mcts_search_legal[OF muo False, of n g] show ?thesis by blast
  qed
  then show "\<exists>res h'. mcts_select_move orc n g h r = Some (res, h')"
    by (auto simp: mcts_select_move_def copy_board_def)
next
  fix b mv assume "pop_push orc"
  then show "snd (move_order_key orc b mv) = b" by (rule move_order_key_frame)
next
  fix b assume "pop_push orc"
  then show "snd (ordered_moves orc b) = b" by (rule ordered_moves_frame)
next
  assume "pop_push orc" "1 \<le> depth" "nat depth \<le> fuel"
  from search_root_frame[OF this, of "h ! r"]
  show "\<exists>res. minimax_select_move fuel orc depth h r = Some (res, h @ [h ! r])"
    by (auto simp: minimax_select_move_def copy_board_def)
qed

theorem select_move_leaves_board_witness:
  "(0::nat) < length [[] :: move list] \<and> (1::int) \<le> 2 \<and> nat 2 \<le> (2::nat) \<and>
   moves_unless_over fifty \<and> pop_push fifty \<and>
   (\<exists>res h'. minimax_select_move 2 fifty 2 [[]] 0 = Some (res, h') \<and> take (length [[] :: move list]) h' = [[]]) \<and>
   (\<exists>res h'. mcts_select_move fifty 4 (\<lambda>i. i) [[]] 0 = Some (res, h') \<and> h' = [[]] @ [[[]] ! 0]) \<and>
   (\<exists>res. minimax_select_move 2 fifty 2 [[]] 0 = Some (res, [[]] @ [[[]] ! 0]))"
proof -
  have l: "(0::nat) < length [[] :: move list]" by simp
  have pp: "pop_push fifty" by (simp add: fifty_def pop_push_scripted)
  from select_move_leaves_board[OF l, of 2 fifty 2 4 "\<lambda>i. i"] pp moves_unless_over_fifty
  show ?thesis by (simp; blast)
qed

end
